theory Spec2Isabelle
  imports Complex_Main
begin

section \<open>Values and arithmetic of the source language\<close>

text \<open>
  The engine of \<^verbatim>\<open>src/sequence.js\<close> computes with JavaScript numbers and reads array
  slots that were never assigned. A value is a finite number, one of the two infinities,
  the number \<open>NaN\<close>, or \<open>undefined\<close>. A finite number is a real; the operators of this
  section give the exact result on finite operands and follow IEEE 754 on the infinities
  and \<open>NaN\<close>. Rounding to 53 bits and the sign of a zero are not modelled; overflow of a
  finite result is added in the section on binary64 arithmetic.
\<close>

datatype jsval = Num real | PInf | NInf | NaN | Undef

definition inf_of_sign :: "real \<Rightarrow> jsval" where
  "inf_of_sign x = (if 0 < x then PInf else if x < 0 then NInf else NaN)"

text \<open>
  The binary operators \<^verbatim>\<open>-\<close>, \<^verbatim>\<open>*\<close>, \<^verbatim>\<open>/\<close> and \<^verbatim>\<open>+\<close> convert \<open>undefined\<close> to
  \<open>NaN\<close>, and \<open>NaN\<close> is absorbing. A zero divisor is taken as the positive zero; the
  only divisor in the program is \<^verbatim>\<open>factorial(i)\<close>, which is at least 1.
\<close>

fun js_sub :: "jsval \<Rightarrow> jsval \<Rightarrow> jsval" where
  "js_sub (Num a) (Num b) = Num (a - b)"
| "js_sub (Num a) PInf = NInf"
| "js_sub (Num a) NInf = PInf"
| "js_sub PInf (Num b) = PInf"
| "js_sub PInf NInf = PInf"
| "js_sub NInf (Num b) = NInf"
| "js_sub NInf PInf = NInf"
| "js_sub _ _ = NaN"

fun js_mul :: "jsval \<Rightarrow> jsval \<Rightarrow> jsval" where
  "js_mul (Num a) (Num b) = Num (a * b)"
| "js_mul (Num a) PInf = inf_of_sign a"
| "js_mul (Num a) NInf = inf_of_sign (- a)"
| "js_mul PInf (Num b) = inf_of_sign b"
| "js_mul NInf (Num b) = inf_of_sign (- b)"
| "js_mul PInf PInf = PInf"
| "js_mul PInf NInf = NInf"
| "js_mul NInf PInf = NInf"
| "js_mul NInf NInf = PInf"
| "js_mul _ _ = NaN"

fun js_add :: "jsval \<Rightarrow> jsval \<Rightarrow> jsval" where
  "js_add (Num a) (Num b) = Num (a + b)"
| "js_add (Num a) PInf = PInf"
| "js_add (Num a) NInf = NInf"
| "js_add PInf (Num b) = PInf"
| "js_add PInf PInf = PInf"
| "js_add NInf (Num b) = NInf"
| "js_add NInf NInf = NInf"
| "js_add _ _ = NaN"

fun js_div :: "jsval \<Rightarrow> jsval \<Rightarrow> jsval" where
  "js_div (Num a) (Num b) = (if b = 0 then inf_of_sign a else Num (a / b))"
| "js_div (Num a) PInf = Num 0"
| "js_div (Num a) NInf = Num 0"
| "js_div PInf (Num b) = (if b < 0 then NInf else PInf)"
| "js_div NInf (Num b) = (if b < 0 then PInf else NInf)"
| "js_div _ _ = NaN"

text \<open>Reading an array at an index: a slot past the end or never assigned is \<open>undefined\<close>.\<close>

definition js_index :: "jsval list \<Rightarrow> nat \<Rightarrow> jsval" where
  "js_index xs i = (if i < length xs then xs ! i else Undef)"

section \<open>Arithmetic primitives (\<^verbatim>\<open>src/utils.js\<close>)\<close>

text \<open>
  \<^verbatim>\<open>factorial(num)\<close>: \<^verbatim>\<open>result = 1; for (i = 2; i <= num; i++) result *= i\<close>. It is called
  with a loop counter, a non-negative integer.
\<close>

function factorial_loop :: "nat \<Rightarrow> nat \<Rightarrow> real \<Rightarrow> real" where
  "factorial_loop num i result =
     (if i \<le> num then factorial_loop num (Suc i) (result * real i) else result)"
  by pat_completeness auto
termination
  by (relation "measure (\<lambda>(num, i, result). Suc num - i)") auto

definition factorial :: "nat \<Rightarrow> real" where
  "factorial num = factorial_loop num 2 1"

text \<open>
  \<^verbatim>\<open>fallingFactorial(n, length)\<close>:
  \<^verbatim>\<open>result = 1; for (i = 1; i <= length; i++) result *= n - i\<close>.
  The position \<open>n\<close> is whatever the caller of \<^verbatim>\<open>getNthTerm\<close> passed.
\<close>

function fallingFactorial_loop :: "jsval \<Rightarrow> nat \<Rightarrow> nat \<Rightarrow> jsval \<Rightarrow> jsval" where
  "fallingFactorial_loop n len i result =
     (if i \<le> len
      then fallingFactorial_loop n len (Suc i) (js_mul result (js_sub n (Num (real i))))
      else result)"
  by pat_completeness auto
termination
  by (relation "measure (\<lambda>(n, len, i, result). Suc len - i)") auto

definition fallingFactorial :: "jsval \<Rightarrow> nat \<Rightarrow> jsval" where
  "fallingFactorial n len = fallingFactorial_loop n len 1 (Num 1)"

section \<open>The interpolation engine (\<^verbatim>\<open>src/sequence.js\<close>)\<close>

record Sequence =
  terms :: "jsval list"
  coefficients :: "jsval list"

text \<open>
  \<^verbatim>\<open>_computeCoefficient(...terms)(n)\<close> runs over the coefficient array of the instance
  as it is at the time of the call (\<open>cs\<close>). The loop state is the pair of the variables
  \<^verbatim>\<open>result\<close> and \<^verbatim>\<open>coefficient\<close>; the function returns the second. The test
  \<^verbatim>\<open>i < terms.length - 1\<close> is written \<open>i + 1 < length ts\<close>, natural subtraction
  being truncated.
\<close>

function computeCoefficient_loop ::
  "jsval list \<Rightarrow> jsval list \<Rightarrow> jsval \<Rightarrow> nat \<Rightarrow> jsval \<Rightarrow> jsval \<Rightarrow> jsval \<times> jsval" where
  "computeCoefficient_loop cs ts n i result coefficient =
     (if i < length ts
      then (let result' =
                  js_add (js_div (js_mul (js_sub (js_index ts i) (js_index cs (i - 1)))
                                         (fallingFactorial n i))
                                 (Num (factorial i)))
                         result
            in computeCoefficient_loop cs ts n (Suc i) result'
                 (if i + 1 < length ts then result' else coefficient))
      else (result, coefficient))"
  by pat_completeness auto
termination
  by (relation "measure (\<lambda>(cs, ts, n, i, result, coefficient). length ts - i)") auto

definition computeCoefficient :: "jsval list \<Rightarrow> jsval list \<Rightarrow> jsval \<Rightarrow> jsval" where
  "computeCoefficient cs ts n =
     snd (computeCoefficient_loop cs ts n 1 (js_index ts 0) (js_index ts 0))"

text \<open>\<^verbatim>\<open>_interpolate(...terms)(n)\<close>: the same accumulation, returning the running value.\<close>

function interpolate_loop ::
  "jsval list \<Rightarrow> jsval list \<Rightarrow> jsval \<Rightarrow> nat \<Rightarrow> jsval \<Rightarrow> jsval" where
  "interpolate_loop cs ts n i result =
     (if i < length ts
      then interpolate_loop cs ts n (Suc i)
             (js_add (js_div (js_mul (js_sub (js_index ts i) (js_index cs (i - 1)))
                                     (fallingFactorial n i))
                             (Num (factorial i)))
                     result)
      else result)"
  by pat_completeness auto
termination
  by (relation "measure (\<lambda>(cs, ts, n, i, result). length ts - i)") auto

definition interpolate :: "jsval list \<Rightarrow> jsval list \<Rightarrow> jsval \<Rightarrow> jsval" where
  "interpolate cs ts n = interpolate_loop cs ts n 1 (js_index ts 0)"

text \<open>
  The constructor: \<^verbatim>\<open>new Array(terms.length)\<close> is an array of that length with no slot
  assigned; iteration \<open>i\<close> assigns slot \<open>i - 1\<close>, which is inside the array, from the
  prefix \<^verbatim>\<open>terms.slice(0, i + 1)\<close> at position \<open>i + 1\<close>.
\<close>

function constructor_loop :: "jsval list \<Rightarrow> nat \<Rightarrow> jsval list \<Rightarrow> jsval list" where
  "constructor_loop ts i cs =
     (if i < length ts
      then constructor_loop ts (Suc i)
             (cs[i - 1 := computeCoefficient cs (take (i + 1) ts) (Num (real (i + 1)))])
      else cs)"
  by pat_completeness auto
termination
  by (relation "measure (\<lambda>(ts, i, cs). length ts - i)") auto

definition Sequence_new :: "jsval list \<Rightarrow> Sequence" where
  "Sequence_new ts =
     \<lparr>terms = ts, coefficients = constructor_loop ts 1 (replicate (length ts) Undef)\<rparr>"

definition getNthTerm :: "Sequence \<Rightarrow> jsval \<Rightarrow> jsval" where
  "getNthTerm s n = interpolate (coefficients s) (terms s) n"


text \<open>
  The constructor has no \<^verbatim>\<open>throw\<close> statement and calls nothing that throws: every
  call completes normally. As an operation that may fail, construction is the total
  function below; the error value is the one the specification names.
\<close>

datatype error = InvalidArgument string

definition construct :: "jsval list \<Rightarrow> error + Sequence" where
  "construct ts = Inr (Sequence_new ts)"

subsection \<open>Formula rendering\<close>

text \<open>
  A template literal renders a loop counter (a positive integer) in decimal, a number by
  the conversion of the language (\<open>sh\<close>, a parameter: it is not code of this repository),
  an infinity as \<^verbatim>\<open>Infinity\<close> or \<^verbatim>\<open>-Infinity\<close>, \<open>NaN\<close> as \<^verbatim>\<open>NaN\<close> and an
  unassigned slot as \<^verbatim>\<open>undefined\<close>.
\<close>

function show_nat :: "nat \<Rightarrow> string" where
  "show_nat n =
     (if n < 10 then [''0123456789'' ! n]
      else show_nat (n div 10) @ [''0123456789'' ! (n mod 10)])"
  by pat_completeness auto
termination
  by (relation "measure (\<lambda>n. n)") auto

definition show_jsval :: "(real \<Rightarrow> string) \<Rightarrow> jsval \<Rightarrow> string" where
  "show_jsval sh v =
     (case v of Num r \<Rightarrow> sh r | PInf \<Rightarrow> ''Infinity'' | NInf \<Rightarrow> ''-Infinity''
      | NaN \<Rightarrow> ''NaN'' | Undef \<Rightarrow> ''undefined'')"

text \<open>
  \<^verbatim>\<open>toFormula()\<close>. The inner loop \<^verbatim>\<open>for (i = k - 1; i >= 1; i--)\<close> appends
  \<^verbatim>\<open>(n-${k - i})\<close>; the outer loop \<^verbatim>\<open>for (k = terms.length; k > 1; k--)\<close> appends one
  summand and, under the test \<^verbatim>\<open>k > 1\<close>, the separator. The call of \<^verbatim>\<open>console.log\<close>
  does not change the returned string and is left out.
\<close>

fun factorProduct_loop :: "nat \<Rightarrow> nat \<Rightarrow> string \<Rightarrow> string" where
  "factorProduct_loop k 0 factorProduct = factorProduct"
| "factorProduct_loop k (Suc i) factorProduct =
     factorProduct_loop k i (factorProduct @ ''(n-'' @ show_nat (k - Suc i) @ '')'')"

fun toFormula_loop :: "(real \<Rightarrow> string) \<Rightarrow> Sequence \<Rightarrow> nat \<Rightarrow> string \<Rightarrow> string" where
  "toFormula_loop sh s 0 formula = formula"
| "toFormula_loop sh s (Suc k) formula =
     (if 1 < Suc k
      then (let factorProduct = factorProduct_loop (Suc k) k [] @ ''/'' @ show_nat k @ ''!'';
                formula1 = formula @ ''('' @ show_jsval sh (js_index (terms s) k) @ '' - ''
                             @ show_jsval sh (js_index (coefficients s) (k - 1)) @ '')''
                             @ factorProduct;
                formula2 = (if 1 < Suc k then formula1 @ '' + '' else formula1)
            in toFormula_loop sh s k formula2)
      else formula)"

definition toFormula :: "(real \<Rightarrow> string) \<Rightarrow> Sequence \<Rightarrow> string" where
  "toFormula sh s =
     toFormula_loop sh s (length (terms s)) '' f(n) = '' @ show_jsval sh (js_index (terms s) 0)"

section \<open>The engine in binary64 arithmetic\<close>

text \<open>
  A binary64 operation returns the infinity of the sign of its exact result when that
  result has magnitude \<open>2^1024\<close> or more. The operators of this section are the exact ones
  followed by this overflow. A finite result below that magnitude is kept exact: rounding
  to 53 bits is not modelled here either.
\<close>

definition max64 :: real where
  "max64 = 2 ^ 1024"

definition overflow64 :: "jsval \<Rightarrow> jsval" where
  "overflow64 v = (case v of Num x \<Rightarrow> (if max64 \<le> \<bar>x\<bar> then inf_of_sign x else Num x) | _ \<Rightarrow> v)"

definition js_sub64 :: "jsval \<Rightarrow> jsval \<Rightarrow> jsval" where
  "js_sub64 a b = overflow64 (js_sub a b)"

definition js_mul64 :: "jsval \<Rightarrow> jsval \<Rightarrow> jsval" where
  "js_mul64 a b = overflow64 (js_mul a b)"

definition js_add64 :: "jsval \<Rightarrow> jsval \<Rightarrow> jsval" where
  "js_add64 a b = overflow64 (js_add a b)"

definition js_div64 :: "jsval \<Rightarrow> jsval \<Rightarrow> jsval" where
  "js_div64 a b = overflow64 (js_div a b)"

text \<open>
  The functions of \<^verbatim>\<open>src/utils.js\<close> and \<^verbatim>\<open>src/sequence.js\<close> once more, statement by
  statement as above, over these operators. \<^verbatim>\<open>factorial\<close> now returns a value of the
  language, since its product can overflow.
\<close>

function factorial64_loop :: "nat \<Rightarrow> nat \<Rightarrow> jsval \<Rightarrow> jsval" where
  "factorial64_loop num i result =
     (if i \<le> num then factorial64_loop num (Suc i) (js_mul64 result (Num (real i))) else result)"
  by pat_completeness auto
termination
  by (relation "measure (\<lambda>(num, i, result). Suc num - i)") auto

definition factorial64 :: "nat \<Rightarrow> jsval" where
  "factorial64 num = factorial64_loop num 2 (Num 1)"

function fallingFactorial64_loop :: "jsval \<Rightarrow> nat \<Rightarrow> nat \<Rightarrow> jsval \<Rightarrow> jsval" where
  "fallingFactorial64_loop n len i result =
     (if i \<le> len
      then fallingFactorial64_loop n len (Suc i) (js_mul64 result (js_sub64 n (Num (real i))))
      else result)"
  by pat_completeness auto
termination
  by (relation "measure (\<lambda>(n, len, i, result). Suc len - i)") auto

definition fallingFactorial64 :: "jsval \<Rightarrow> nat \<Rightarrow> jsval" where
  "fallingFactorial64 n len = fallingFactorial64_loop n len 1 (Num 1)"

function computeCoefficient64_loop ::
  "jsval list \<Rightarrow> jsval list \<Rightarrow> jsval \<Rightarrow> nat \<Rightarrow> jsval \<Rightarrow> jsval \<Rightarrow> jsval \<times> jsval" where
  "computeCoefficient64_loop cs ts n i result coefficient =
     (if i < length ts
      then (let result' =
                  js_add64 (js_div64 (js_mul64 (js_sub64 (js_index ts i) (js_index cs (i - 1)))
                                               (fallingFactorial64 n i))
                                     (factorial64 i))
                           result
            in computeCoefficient64_loop cs ts n (Suc i) result'
                 (if i + 1 < length ts then result' else coefficient))
      else (result, coefficient))"
  by pat_completeness auto
termination
  by (relation "measure (\<lambda>(cs, ts, n, i, result, coefficient). length ts - i)") auto

definition computeCoefficient64 :: "jsval list \<Rightarrow> jsval list \<Rightarrow> jsval \<Rightarrow> jsval" where
  "computeCoefficient64 cs ts n =
     snd (computeCoefficient64_loop cs ts n 1 (js_index ts 0) (js_index ts 0))"

function interpolate64_loop ::
  "jsval list \<Rightarrow> jsval list \<Rightarrow> jsval \<Rightarrow> nat \<Rightarrow> jsval \<Rightarrow> jsval" where
  "interpolate64_loop cs ts n i result =
     (if i < length ts
      then interpolate64_loop cs ts n (Suc i)
             (js_add64 (js_div64 (js_mul64 (js_sub64 (js_index ts i) (js_index cs (i - 1)))
                                           (fallingFactorial64 n i))
                                 (factorial64 i))
                       result)
      else result)"
  by pat_completeness auto
termination
  by (relation "measure (\<lambda>(cs, ts, n, i, result). length ts - i)") auto

definition interpolate64 :: "jsval list \<Rightarrow> jsval list \<Rightarrow> jsval \<Rightarrow> jsval" where
  "interpolate64 cs ts n = interpolate64_loop cs ts n 1 (js_index ts 0)"

function constructor64_loop :: "jsval list \<Rightarrow> nat \<Rightarrow> jsval list \<Rightarrow> jsval list" where
  "constructor64_loop ts i cs =
     (if i < length ts
      then constructor64_loop ts (Suc i)
             (cs[i - 1 := computeCoefficient64 cs (take (i + 1) ts) (Num (real (i + 1)))])
      else cs)"
  by pat_completeness auto
termination
  by (relation "measure (\<lambda>(ts, i, cs). length ts - i)") auto

definition Sequence_new64 :: "jsval list \<Rightarrow> Sequence" where
  "Sequence_new64 ts =
     \<lparr>terms = ts, coefficients = constructor64_loop ts 1 (replicate (length ts) Undef)\<rparr>"

definition getNthTerm64 :: "Sequence \<Rightarrow> jsval \<Rightarrow> jsval" where
  "getNthTerm64 s n = interpolate64 (coefficients s) (terms s) n"

section \<open>Specification-level notions\<close>

text \<open>
  The arithmetic value of a rendered formula is obtained by reading the string. The reading
  is parametrised by the arithmetic, so that it can be done exactly or in binary64.
\<close>

record arith =
  a_sub :: "jsval \<Rightarrow> jsval \<Rightarrow> jsval"
  a_mul :: "jsval \<Rightarrow> jsval \<Rightarrow> jsval"
  a_add :: "jsval \<Rightarrow> jsval \<Rightarrow> jsval"
  a_div :: "jsval \<Rightarrow> jsval \<Rightarrow> jsval"
  a_fact :: "nat \<Rightarrow> jsval"

definition exact_arith :: arith where
  "exact_arith = \<lparr>a_sub = js_sub, a_mul = js_mul, a_add = js_add, a_div = js_div,
                   a_fact = (\<lambda>k. Num (factorial k))\<rparr>"

definition binary64_arith :: arith where
  "binary64_arith = \<lparr>a_sub = js_sub64, a_mul = js_mul64, a_add = js_add64, a_div = js_div64,
                      a_fact = factorial64\<rparr>"

text \<open>
  Reading the string that \<^verbatim>\<open>toFormula()\<close> returns. After the heading \<^verbatim>\<open> f(n) = \<close>, a
  summand starts with an opening parenthesis: the first number ends at the blank before
  the minus sign, the second at the closing parenthesis; the factors \<^verbatim>\<open>(n-j)\<close> follow
  until the slash; the denominator ends at the exclamation mark, and \<^verbatim>\<open> + \<close> ends the
  summand. What does not start with a parenthesis is the constant. A summand has the value
  of its coefficient difference, multiplied by its factors from left to right and divided
  by the factorial; the summands and the constant are added from left to right. Numbers
  are read by \<open>rd\<close>, the inverse of the conversion of the language.
\<close>

definition strip_prefix :: "string \<Rightarrow> string \<Rightarrow> string option" where
  "strip_prefix p s = (if take (length p) s = p then Some (drop (length p) s) else None)"

definition digit_of :: "char \<Rightarrow> nat" where
  "digit_of c = of_char c - 48"

definition read_nat :: "string \<Rightarrow> nat" where
  "read_nat s = foldl (\<lambda>n c. 10 * n + digit_of c) 0 s"

fun read_factors :: "nat \<Rightarrow> string \<Rightarrow> nat list \<times> string" where
  "read_factors 0 s = ([], s)"
| "read_factors (Suc fuel) s =
     (case strip_prefix ''(n-'' s of
        None \<Rightarrow> ([], s)
      | Some r \<Rightarrow>
          (case read_factors fuel (drop 1 (dropWhile (\<lambda>c. c \<noteq> CHR '')'') r)) of
             (js, r') \<Rightarrow> (read_nat (takeWhile (\<lambda>c. c \<noteq> CHR '')'') r) # js, r')))"

definition read_summand ::
  "arith \<Rightarrow> (string \<Rightarrow> jsval) \<Rightarrow> jsval \<Rightarrow> string \<Rightarrow> (jsval \<times> string) option" where
  "read_summand A rd n s =
     (case strip_prefix ''('' s of None \<Rightarrow> None | Some r1 \<Rightarrow>
      (case strip_prefix '' - '' (dropWhile (\<lambda>c. c \<noteq> CHR '' '') r1) of None \<Rightarrow> None | Some r2 \<Rightarrow>
      (case strip_prefix '')'' (dropWhile (\<lambda>c. c \<noteq> CHR '')'') r2) of None \<Rightarrow> None | Some r3 \<Rightarrow>
      (case read_factors (length r3) r3 of (js, r4) \<Rightarrow>
      (case strip_prefix ''/'' r4 of None \<Rightarrow> None | Some r5 \<Rightarrow>
      (case strip_prefix ''! + '' (dropWhile (\<lambda>c. c \<noteq> CHR ''!'') r5) of None \<Rightarrow> None | Some r6 \<Rightarrow>
        Some (a_div A
                (foldl (a_mul A)
                   (a_sub A (rd (takeWhile (\<lambda>c. c \<noteq> CHR '' '') r1))
                            (rd (takeWhile (\<lambda>c. c \<noteq> CHR '')'') r2)))
                   (map (\<lambda>j. a_sub A n (Num (real j))) js))
                (a_fact A (read_nat (takeWhile (\<lambda>c. c \<noteq> CHR ''!'') r5))),
              r6)))))))"

fun read_sum ::
  "arith \<Rightarrow> (string \<Rightarrow> jsval) \<Rightarrow> jsval \<Rightarrow> nat \<Rightarrow> jsval option \<Rightarrow> string \<Rightarrow> jsval option" where
  "read_sum A rd n 0 acc s = None"
| "read_sum A rd n (Suc fuel) acc s =
     (if take 1 s = ''(''
      then (case read_summand A rd n s of
              None \<Rightarrow> None
            | Some (v, r) \<Rightarrow>
                read_sum A rd n fuel (Some (case acc of None \<Rightarrow> v | Some a \<Rightarrow> a_add A a v)) r)
      else Some (case acc of None \<Rightarrow> rd s | Some a \<Rightarrow> a_add A a (rd s)))"

definition eval_formula :: "arith \<Rightarrow> (string \<Rightarrow> jsval) \<Rightarrow> string \<Rightarrow> jsval \<Rightarrow> jsval option" where
  "eval_formula A rd str n =
     (case strip_prefix '' f(n) = '' str of
        None \<Rightarrow> None
      | Some r \<Rightarrow> read_sum A rd n (Suc (length r)) None r)"

text \<open>
  A value can be read back when \<open>rd\<close> inverts its rendering and the rendering has no blank
  and no parenthesis, as no rendering of a number has. An engine can be read back when
  all the values that \<^verbatim>\<open>toFormula()\<close> renders can.
\<close>

definition readable :: "(real \<Rightarrow> string) \<Rightarrow> (string \<Rightarrow> jsval) \<Rightarrow> jsval \<Rightarrow> bool" where
  "readable sh rd v \<longleftrightarrow>
     rd (show_jsval sh v) = v \<and> CHR '' '' \<notin> set (show_jsval sh v)
     \<and> CHR ''('' \<notin> set (show_jsval sh v) \<and> CHR '')'' \<notin> set (show_jsval sh v)"

definition readable_engine :: "(real \<Rightarrow> string) \<Rightarrow> (string \<Rightarrow> jsval) \<Rightarrow> Sequence \<Rightarrow> bool" where
  "readable_engine sh rd s \<longleftrightarrow>
     readable sh rd (js_index (terms s) 0)
     \<and> list_all (\<lambda>k. readable sh rd (js_index (terms s) (k - 1))
                      \<and> readable sh rd (js_index (coefficients s) (k - 2)))
                 [2..<Suc (length (terms s))]"

text \<open>
  The conversion of the language on integers of small magnitude, and a reader for it.
\<close>

definition show_num_int :: "real \<Rightarrow> string" where
  "show_num_int r = (if r < 0 then CHR ''-'' # show_nat (nat \<lfloor>- r\<rfloor>) else show_nat (nat \<lfloor>r\<rfloor>))"

definition read_jsval :: "string \<Rightarrow> jsval" where
  "read_jsval str =
     (if str = ''undefined'' then Undef
      else if str = ''NaN'' then NaN
      else if str = ''Infinity'' then PInf
      else if str = ''-Infinity'' then NInf
      else if take 1 str = ''-'' then Num (- real (read_nat (drop 1 str)))
      else Num (real (read_nat str)))"

text \<open>
  The same value, as the specification words it: the summands for \<open>k = m\<close> down to \<open>2\<close>,
  each the coefficient difference times the factors \<open>(n-1)\<dots>(n-(k-1))\<close> over \<open>(k-1)!\<close>,
  then the constant \<open>t[0]\<close>, added from left to right. \<open>render_summand\<close> is the text of
  one summand.
\<close>

definition formula_term :: "arith \<Rightarrow> Sequence \<Rightarrow> jsval \<Rightarrow> nat \<Rightarrow> jsval" where
  "formula_term A s n k =
     a_div A (foldl (a_mul A)
                (a_sub A (js_index (terms s) (k - 1)) (js_index (coefficients s) (k - 2)))
                (map (\<lambda>j. a_sub A n (Num (real j))) [1..<k]))
             (a_fact A (k - 1))"

definition formula_value :: "arith \<Rightarrow> Sequence \<Rightarrow> jsval \<Rightarrow> jsval" where
  "formula_value A s n =
     (let xs = map (formula_term A s n) (rev [2..<Suc (length (terms s))]) @ [js_index (terms s) 0]
      in foldl (a_add A) (hd xs) (tl xs))"

definition render_summand :: "(real \<Rightarrow> string) \<Rightarrow> Sequence \<Rightarrow> nat \<Rightarrow> string" where
  "render_summand sh s k =
     ''('' @ show_jsval sh (js_index (terms s) (k - 1)) @ '' - ''
     @ show_jsval sh (js_index (coefficients s) (k - 2)) @ '')''
     @ concat (map (\<lambda>j. ''(n-'' @ show_nat j @ '')'') [1..<k])
     @ ''/'' @ show_nat (k - 1) @ ''!'' @ '' + ''"

text \<open>
  Auxiliary notions for the proofs. \<open>newton_step\<close> is the update of the running value that
  both loops of the engine perform at index \<open>i\<close>; \<open>coefficient_step\<close> is one iteration of
  the loop of \<^verbatim>\<open>_computeCoefficient\<close> on its pair of variables. \<open>newton_poly rs k x\<close> is
  the value at \<open>x\<close> of the polynomial built from the terms \<open>rs ! 0\<close> to \<open>rs ! k\<close>, and
  \<open>coeffs_upto rs m p\<close> is the table of length \<open>m\<close> whose first \<open>p\<close> slots are assigned.
\<close>

definition newton_step :: "jsval list \<Rightarrow> jsval list \<Rightarrow> jsval \<Rightarrow> jsval \<Rightarrow> nat \<Rightarrow> jsval" where
  "newton_step cs ts n r i =
     js_add (js_div (js_mul (js_sub (js_index ts i) (js_index cs (i - 1)))
                            (fallingFactorial n i))
                    (Num (factorial i)))
            r"

definition coefficient_step ::
  "jsval list \<Rightarrow> jsval list \<Rightarrow> jsval \<Rightarrow> jsval \<times> jsval \<Rightarrow> nat \<Rightarrow> jsval \<times> jsval" where
  "coefficient_step cs ts n rc i =
     (newton_step cs ts n (fst rc) i,
      if i + 1 < length ts then newton_step cs ts n (fst rc) i else snd rc)"

fun newton_poly :: "real list \<Rightarrow> nat \<Rightarrow> real \<Rightarrow> real" where
  "newton_poly rs 0 x = rs ! 0"
| "newton_poly rs (Suc k) x =
     (rs ! Suc k - newton_poly rs k (real (k + 2))) * (\<Prod>j = 1..Suc k. x - real j) / fact (Suc k)
     + newton_poly rs k x"

definition coeffs_upto :: "real list \<Rightarrow> nat \<Rightarrow> nat \<Rightarrow> jsval list" where
  "coeffs_upto rs m p =
     map (\<lambda>j. Num (newton_poly rs j (real (j + 2)))) [0..<p] @ replicate (m - p) Undef"

declare factorial_loop.simps [simp del] fallingFactorial_loop.simps [simp del]
  computeCoefficient_loop.simps [simp del] interpolate_loop.simps [simp del]
  constructor_loop.simps [simp del] show_nat.simps [simp del]
  factorial64_loop.simps [simp del] fallingFactorial64_loop.simps [simp del]
  computeCoefficient64_loop.simps [simp del] interpolate64_loop.simps [simp del]
  constructor64_loop.simps [simp del]

section \<open>The loops in closed form\<close>

lemma factorial_loop_prod:
  "factorial_loop num i r = r * (\<Prod>j = i..num. real j)"
proof (induction num i r rule: factorial_loop.induct)
  case (1 num i result)
  show ?case
  proof (cases "i \<le> num")
    case True
    then show ?thesis
      using "1.IH" by (subst factorial_loop.simps) (simp add: prod.atLeast_Suc_atMost)
  next
    case False
    then show ?thesis by (subst factorial_loop.simps) simp
  qed
qed

lemma prod_from_2: "(\<Prod>j = 2..k. real j) = fact k"
proof (induction k)
  case 0
  show ?case by simp
next
  case (Suc k)
  show ?case
  proof (cases "k = 0")
    case True
    then show ?thesis by simp
  next
    case False
    then have "2 \<le> Suc k" by simp
    then have "(\<Prod>j = 2..Suc k. real j) = (\<Prod>j = 2..k. real j) * real (Suc k)"
      by (simp add: prod.nat_ivl_Suc')
    with Suc show ?thesis by (simp add: mult.commute)
  qed
qed

lemma factorial_fact: "factorial k = fact k"
  by (simp add: factorial_def factorial_loop_prod prod_from_2)

lemma factorial_pos: "0 < factorial k"
  by (simp add: factorial_fact)

lemma fallingFactorial_loop_Num:
  "fallingFactorial_loop (Num x) len i (Num r) = Num (r * (\<Prod>j = i..len. x - real j))"
proof (induction "Num x" len i "Num r" arbitrary: r rule: fallingFactorial_loop.induct)
  case (1 len i)
  show ?case
  proof (cases "i \<le> len")
    case True
    then show ?thesis
      using "1.hyps"[of "r * (x - real i)"]
      by (subst fallingFactorial_loop.simps) (simp add: prod.atLeast_Suc_atMost mult.assoc)
  next
    case False
    then show ?thesis by (subst fallingFactorial_loop.simps) simp
  qed
qed

lemma fallingFactorial_Num:
  "fallingFactorial (Num x) k = Num (\<Prod>j = 1..k. x - real j)"
  by (simp add: fallingFactorial_def fallingFactorial_loop_Num)

lemma fallingFactorial_0: "fallingFactorial n 0 = Num 1"
  by (simp add: fallingFactorial_def fallingFactorial_loop.simps)

lemma interpolate_loop_foldl:
  "interpolate_loop cs ts n i r = foldl (newton_step cs ts n) r [i..<length ts]"
proof (induction cs ts n i r rule: interpolate_loop.induct)
  case (1 cs ts n i result)
  show ?case
  proof (cases "i < length ts")
    case True
    have "interpolate_loop cs ts n i result =
            interpolate_loop cs ts n (Suc i) (newton_step cs ts n result i)"
      using True by (subst interpolate_loop.simps) (simp add: newton_step_def)
    also have "\<dots> = foldl (newton_step cs ts n) (newton_step cs ts n result i) [Suc i..<length ts]"
      using "1.IH"[OF True] unfolding newton_step_def .
    also have "\<dots> = foldl (newton_step cs ts n) result [i..<length ts]"
      using True by (simp add: upt_conv_Cons)
    finally show ?thesis .
  next
    case False
    then show ?thesis by (subst interpolate_loop.simps) simp
  qed
qed

lemma computeCoefficient_loop_foldl:
  "computeCoefficient_loop cs ts n i r c =
     foldl (coefficient_step cs ts n) (r, c) [i..<length ts]"
proof (induction cs ts n i r c rule: computeCoefficient_loop.induct)
  case (1 cs ts n i result coefficient)
  show ?case
  proof (cases "i < length ts")
    case True
    let ?r = "newton_step cs ts n result i"
    let ?c = "if i + 1 < length ts then ?r else coefficient"
    have "computeCoefficient_loop cs ts n i result coefficient =
            computeCoefficient_loop cs ts n (Suc i) ?r ?c"
      using True by (subst computeCoefficient_loop.simps) (simp add: newton_step_def Let_def)
    also have "\<dots> = foldl (coefficient_step cs ts n) (?r, ?c) [Suc i..<length ts]"
      using "1.IH"[OF True refl] unfolding newton_step_def .
    also have "\<dots> = foldl (coefficient_step cs ts n) (result, coefficient) [i..<length ts]"
      using True by (simp add: upt_conv_Cons coefficient_step_def)
    finally show ?thesis .
  next
    case False
    then show ?thesis by (subst computeCoefficient_loop.simps) simp
  qed
qed

lemma coefficient_step_inner:
  "\<forall>j \<in> set js. j + 1 < length ts \<Longrightarrow>
   foldl (coefficient_step cs ts n) (r, r) js =
     (foldl (newton_step cs ts n) r js, foldl (newton_step cs ts n) r js)"
  by (induction js arbitrary: r) (simp_all add: coefficient_step_def)

lemma newton_step_cong:
  "js_index ts i = js_index ts' i \<Longrightarrow> js_index cs (i - 1) = js_index cs' (i - 1) \<Longrightarrow>
   newton_step cs ts n r i = newton_step cs' ts' n r i"
  by (simp add: newton_step_def)

lemma foldl_newton_step_cong:
  "\<forall>j \<in> set js. js_index ts j = js_index ts' j \<and> js_index cs (j - 1) = js_index cs' (j - 1) \<Longrightarrow>
   foldl (newton_step cs ts n) r js = foldl (newton_step cs' ts' n) r js"
proof (induction js arbitrary: r)
  case Nil
  show ?case by simp
next
  case (Cons j js)
  have "newton_step cs ts n r j = newton_step cs' ts' n r j"
    using Cons.prems by (intro newton_step_cong) simp_all
  with Cons show ?case by simp
qed

lemma computeCoefficient_loop_final:
  assumes k: "length ts = Suc k" "1 \<le> k"
  shows "computeCoefficient_loop cs ts n (Suc 0) r r =
           (newton_step cs ts n (foldl (newton_step cs ts n) r [Suc 0..<k]) k,
            foldl (newton_step cs ts n) r [Suc 0..<k])"
proof -
  have split: "[Suc 0..<length ts] = [Suc 0..<k] @ [k]"
    using k by simp
  have inner: "\<forall>j \<in> set [Suc 0..<k]. j + 1 < length ts"
    using k by auto
  let ?R = "foldl (newton_step cs ts n) r [Suc 0..<k]"
  have "computeCoefficient_loop cs ts n (Suc 0) r r =
          foldl (coefficient_step cs ts n) (r, r) ([Suc 0..<k] @ [k])"
    by (simp only: computeCoefficient_loop_foldl split)
  also have "\<dots> = coefficient_step cs ts n (?R, ?R) k"
    by (simp only: foldl_append coefficient_step_inner[OF inner] foldl.simps)
  also have "\<dots> = (newton_step cs ts n ?R k, ?R)"
    using k by (simp add: coefficient_step_def)
  finally show ?thesis .
qed


section \<open>The coefficient table of numeric terms\<close>


lemma newton_step_Num:
  assumes "1 \<le> i" "js_index ts i = Num t" "js_index cs (i - 1) = Num c"
  shows "newton_step cs ts (Num x) (Num r) i =
           Num ((t - c) * (\<Prod>j = 1..i. x - real j) / fact i + r)"
  using assms by (simp add: newton_step_def fallingFactorial_Num factorial_fact)

lemma foldl_newton_poly_Suc:
  assumes "k < length rs"
    and "\<forall>j\<le>k. js_index ts j = Num (rs ! j)"
    and "\<forall>j<k. js_index cs j = Num (newton_poly rs j (real (j + 2)))"
  shows "foldl (newton_step cs ts (Num x)) (js_index ts 0) ([Suc 0..<k] @ (if k = 0 then [] else [k]))
           = Num (newton_poly rs k x)"
  using assms
proof (induction k)
  case 0
  then show ?case by simp
next
  case (Suc k)
  have IH: "foldl (newton_step cs ts (Num x)) (js_index ts 0) [Suc 0..<Suc k] = Num (newton_poly rs k x)"
    using Suc by (cases k) simp_all
  have t: "js_index ts (Suc k) = Num (rs ! Suc k)"
    using Suc.prems by simp
  have c: "js_index cs (Suc k - 1) = Num (newton_poly rs k (real (k + 2)))"
    using Suc.prems by simp
  have "foldl (newton_step cs ts (Num x)) (js_index ts 0) ([Suc 0..<Suc k] @ [Suc k]) =
          newton_step cs ts (Num x) (Num (newton_poly rs k x)) (Suc k)"
    by (simp only: foldl_append IH foldl.simps)
  also have "\<dots> = Num (newton_poly rs (Suc k) x)"
    by (subst newton_step_Num[OF _ t c]) simp_all
  finally show ?case by simp
qed

lemma foldl_newton_poly:
  assumes "1 \<le> m" "m \<le> length rs"
    and "\<forall>j<m. js_index ts j = Num (rs ! j)"
    and "\<forall>j<m - 1. js_index cs j = Num (newton_poly rs j (real (j + 2)))"
  shows "foldl (newton_step cs ts (Num x)) (js_index ts 0) [Suc 0..<m] = Num (newton_poly rs (m - 1) x)"
proof -
  from assms(1) obtain k where k: "m = Suc k" by (cases m) auto
  have "foldl (newton_step cs ts (Num x)) (js_index ts 0) ([Suc 0..<k] @ (if k = 0 then [] else [k]))
           = Num (newton_poly rs k x)"
    using assms k by (intro foldl_newton_poly_Suc) simp_all
  moreover have "[Suc 0..<m] = [Suc 0..<k] @ (if k = 0 then [] else [k])"
    using k by simp
  ultimately show ?thesis
    using k by simp
qed






lemma js_index_take: "j < q \<Longrightarrow> js_index (take q ts) j = js_index ts j"
  by (simp add: js_index_def)

lemma computeCoefficient_loop_prefix:
  assumes "1 \<le> i" "i < length ts"
  shows "computeCoefficient_loop cs (take (Suc i) ts) n (Suc 0) (js_index ts 0) (js_index ts 0) =
           (newton_step cs ts n (foldl (newton_step cs ts n) (js_index ts 0) [Suc 0..<i]) i,
            foldl (newton_step cs ts n) (js_index ts 0) [Suc 0..<i])"
proof -
  let ?ts = "take (Suc i) ts"
  have len: "length ?ts = Suc i"
    using assms by simp
  have same: "foldl (newton_step cs ?ts n) r [Suc 0..<i] = foldl (newton_step cs ts n) r [Suc 0..<i]" for r
    by (rule foldl_newton_step_cong) (simp add: js_index_take)
  have last: "newton_step cs ?ts n r i = newton_step cs ts n r i" for r
    by (rule newton_step_cong) (simp_all add: js_index_take)
  show ?thesis
    by (simp only: computeCoefficient_loop_final[OF len assms(1)] same last)
qed

lemma computeCoefficient_prefix:
  assumes "1 \<le> i" "i < length ts"
  shows "computeCoefficient cs (take (Suc i) ts) n =
           foldl (newton_step cs ts n) (js_index ts 0) [Suc 0..<i]"
proof -
  have "js_index (take (Suc i) ts) 0 = js_index ts 0"
    by (simp add: js_index_take)
  then show ?thesis
    by (simp add: computeCoefficient_def computeCoefficient_loop_prefix[OF assms])
qed

lemma interpolate_foldl:
  "interpolate cs ts n = foldl (newton_step cs ts n) (js_index ts 0) [Suc 0..<length ts]"
  by (simp add: interpolate_def interpolate_loop_foldl)

lemma interpolate_prefix:
  assumes "1 \<le> i" "i \<le> length ts"
  shows "interpolate cs (take i ts) n = foldl (newton_step cs ts n) (js_index ts 0) [Suc 0..<i]"
proof -
  have len: "length (take i ts) = i"
    using assms by simp
  have z: "js_index (take i ts) 0 = js_index ts 0"
    using assms by (simp add: js_index_take)
  have "foldl (newton_step cs (take i ts) n) r [Suc 0..<i] = foldl (newton_step cs ts n) r [Suc 0..<i]" for r
    by (rule foldl_newton_step_cong) (simp add: js_index_take)
  then show ?thesis
    by (simp only: interpolate_foldl len z)
qed

lemma length_coeffs_upto: "p \<le> m \<Longrightarrow> length (coeffs_upto rs m p) = m"
  by (simp add: coeffs_upto_def)

lemma coeffs_upto_lt:
  "j < p \<Longrightarrow> js_index (coeffs_upto rs m p) j = Num (newton_poly rs j (real (j + 2)))"
  by (simp add: coeffs_upto_def js_index_def nth_append)

lemma coeffs_upto_ge: "p \<le> j \<Longrightarrow> js_index (coeffs_upto rs m p) j = Undef"
  by (simp add: coeffs_upto_def js_index_def nth_append)

lemma coeffs_upto_update:
  assumes "p < m"
  shows "(coeffs_upto rs m p)[p := Num (newton_poly rs p (real (p + 2)))] = coeffs_upto rs m (Suc p)"
proof -
  from assms obtain d where d: "m - p = Suc d" "m - Suc p = d"
    by (cases "m - p") auto
  show ?thesis
    by (simp add: coeffs_upto_def d list_update_append)
qed

lemma computeCoefficient_numeric:
  assumes "1 \<le> i" "i < length ts" "length ts \<le> length rs"
    and ts: "\<forall>j<length ts. ts ! j = Num (rs ! j)"
    and cs: "\<forall>j<i - 1. js_index cs j = Num (newton_poly rs j (real (j + 2)))"
  shows "computeCoefficient cs (take (Suc i) ts) (Num x) = Num (newton_poly rs (i - 1) x)"
proof -
  have t: "\<forall>j<i. js_index ts j = Num (rs ! j)"
    using ts assms(2) by (simp add: js_index_def)
  have "i \<le> length rs"
    using assms by simp
  from foldl_newton_poly[OF assms(1) this t cs] show ?thesis
    by (simp only: computeCoefficient_prefix[OF assms(1,2)])
qed

lemma constructor_loop_numeric:
  assumes "length ts \<le> length rs" "\<forall>j<length ts. ts ! j = Num (rs ! j)" "length ts \<le> m"
    and "p \<le> length ts - 1"
  shows "constructor_loop ts (Suc p) (coeffs_upto rs m p) = coeffs_upto rs m (length ts - 1)"
  using assms(4)
proof (induction "length ts - 1 - p" arbitrary: p)
  case 0
  then have "\<not> Suc p < length ts" "p = length ts - 1" using "0.prems" by simp_all
  then show ?case
    by (subst constructor_loop.simps) (simp only: if_False)
next
  case (Suc d)
  then have lt: "Suc p < length ts" by simp
  have pm: "p < m" using lt assms(3) by simp
  have cs: "\<forall>j<Suc p - 1. js_index (coeffs_upto rs m p) j = Num (newton_poly rs j (real (j + 2)))"
    by (simp add: coeffs_upto_lt)
  have cc: "computeCoefficient (coeffs_upto rs m p) (take (Suc (Suc p)) ts) (Num (real (Suc (Suc p))))
              = Num (newton_poly rs p (real (p + 2)))"
    using computeCoefficient_numeric[OF _ lt assms(1,2) cs, of "real (Suc (Suc p))"] by simp
  have "constructor_loop ts (Suc p) (coeffs_upto rs m p) =
          constructor_loop ts (Suc (Suc p)) ((coeffs_upto rs m p)[p := Num (newton_poly rs p (real (p + 2)))])"
    using lt cc by (subst constructor_loop.simps) simp
  also have "\<dots> = constructor_loop ts (Suc (Suc p)) (coeffs_upto rs m (Suc p))"
    by (simp only: coeffs_upto_update[OF pm])
  also have "\<dots> = coeffs_upto rs m (length ts - 1)"
    using Suc.hyps(2) lt by (intro Suc.hyps(1)) simp_all
  finally show ?case .
qed

lemma coefficients_numeric:
  "coefficients (Sequence_new (map Num rs)) = coeffs_upto rs (length rs) (length rs - 1)"
proof -
  have init: "replicate (length rs) Undef = coeffs_upto rs (length rs) 0"
    by (simp add: coeffs_upto_def)
  have "constructor_loop (map Num rs) (Suc 0) (coeffs_upto rs (length rs) 0)
          = coeffs_upto rs (length rs) (length (map Num rs) - 1)"
    by (rule constructor_loop_numeric) simp_all
  then show ?thesis
    by (simp add: Sequence_new_def init)
qed

lemma terms_Sequence_new: "terms (Sequence_new ts) = ts"
  by (simp add: Sequence_new_def)

lemma getNthTerm_numeric:
  assumes "rs \<noteq> []"
  shows "getNthTerm (Sequence_new (map Num rs)) (Num x) = Num (newton_poly rs (length rs - 1) x)"
proof -
  let ?m = "length rs"
  let ?cs = "coeffs_upto rs ?m (?m - 1)"
  have m: "1 \<le> ?m" using assms by (cases rs) auto
  have t: "\<forall>j<?m. js_index (map Num rs) j = Num (rs ! j)"
    by (simp add: js_index_def)
  have c: "\<forall>j<?m - 1. js_index ?cs j = Num (newton_poly rs j (real (j + 2)))"
    by (simp add: coeffs_upto_lt)
  from foldl_newton_poly[OF m order_refl t c, of x]
  have "interpolate ?cs (map Num rs) (Num x) = Num (newton_poly rs (?m - 1) x)"
    by (simp add: interpolate_foldl)
  then show ?thesis
    by (simp only: getNthTerm_def coefficients_numeric terms_Sequence_new)
qed

lemma constructor_loop_Nil: "constructor_loop [] (Suc 0) [] = []"
  by (subst constructor_loop.simps) simp

lemma newton_poly_take: "k < q \<Longrightarrow> newton_poly (take q rs) k x = newton_poly rs k x"
  by (induction k arbitrary: x) simp_all

lemma coefficients_numeric_nth:
  assumes "i < length rs - 1"
  shows "coefficients (Sequence_new (map Num rs)) ! i = Num (newton_poly rs i (real (i + 2)))"
proof -
  let ?cs = "coeffs_upto rs (length rs) (length rs - 1)"
  have "length ?cs = length rs"
    by (simp add: length_coeffs_upto)
  moreover have "i < length rs"
    using assms by simp
  ultimately have "js_index ?cs i = ?cs ! i"
    unfolding js_index_def by simp
  then show ?thesis
    using coeffs_upto_lt[OF assms, of rs "length rs"] by (simp only: coefficients_numeric)
qed

lemma newton_step_Undef:
  "js_index cs (i - 1) = Undef \<Longrightarrow> newton_step cs ts n r i = NaN"
  by (cases "js_index ts i") (simp_all add: newton_step_def)

lemma constructor_loop_prefix_numeric:
  assumes "i \<le> length rs"
  shows "constructor_loop (take i (map Num rs)) (Suc 0) (replicate (length rs) Undef)
           = coeffs_upto rs (length rs) (i - 1)"
proof -
  let ?ts = "take i (map Num rs)"
  have len: "length ?ts = i" using assms by simp
  have init: "replicate (length rs) Undef = coeffs_upto rs (length rs) 0"
    by (simp add: coeffs_upto_def)
  have "constructor_loop ?ts (Suc 0) (coeffs_upto rs (length rs) 0)
          = coeffs_upto rs (length rs) (length ?ts - 1)"
    using assms by (intro constructor_loop_numeric) simp_all
  then show ?thesis
    by (simp only: init len)
qed

lemma newton_poly_2468: "newton_poly [2, 4, 6, 8] 3 x = 2 * x"
  by (simp add: eval_nat_numeral algebra_simps)

section \<open>The rendered formula and its value\<close>

lemma js_mul_assoc: "js_mul (js_mul a b) c = js_mul a (js_mul b c)"
  by (cases a; cases b; cases c)
     (auto simp: inf_of_sign_def zero_less_mult_iff mult_less_0_iff not_less)

lemma js_add_assoc: "js_add (js_add a b) c = js_add a (js_add b c)"
  by (cases a; cases b; cases c) simp_all

lemma foldl_js_mul_Cons: "foldl js_mul a (x # xs) = js_mul a (foldl js_mul x xs)"
proof (induction xs arbitrary: a x)
  case Nil
  show ?case by simp
next
  case (Cons y ys)
  have "foldl js_mul a (x # y # ys) = foldl js_mul (js_mul a x) (y # ys)"
    by simp
  also have "\<dots> = js_mul (js_mul a x) (foldl js_mul y ys)"
    by (rule Cons.IH)
  also have "\<dots> = js_mul a (js_mul x (foldl js_mul y ys))"
    by (rule js_mul_assoc)
  also have "\<dots> = js_mul a (foldl js_mul x (y # ys))"
    by (simp only: Cons.IH[of x y])
  finally show ?case .
qed

lemma foldl_js_add_Cons: "foldl js_add a (x # xs) = js_add a (foldl js_add x xs)"
proof (induction xs arbitrary: a x)
  case Nil
  show ?case by simp
next
  case (Cons y ys)
  have "foldl js_add a (x # y # ys) = foldl js_add (js_add a x) (y # ys)"
    by simp
  also have "\<dots> = js_add (js_add a x) (foldl js_add y ys)"
    by (rule Cons.IH)
  also have "\<dots> = js_add a (js_add x (foldl js_add y ys))"
    by (rule js_add_assoc)
  also have "\<dots> = js_add a (foldl js_add x (y # ys))"
    by (simp only: Cons.IH[of x y])
  finally show ?case .
qed

lemma fallingFactorial_loop_foldl:
  "fallingFactorial_loop n len i r =
     foldl js_mul r (map (\<lambda>j. js_sub n (Num (real j))) [i..<Suc len])"
proof (induction n len i r rule: fallingFactorial_loop.induct)
  case (1 n len i result)
  show ?case
  proof (cases "i \<le> len")
    case True
    then have "[i..<Suc len] = i # [Suc i..<Suc len]"
      by (simp add: upt_conv_Cons)
    with True "1.IH" show ?thesis
      by (subst fallingFactorial_loop.simps) simp
  next
    case False
    then show ?thesis
      by (subst fallingFactorial_loop.simps) simp
  qed
qed

lemma js_mul_one_sub: "js_mul (Num 1) (js_sub n (Num x)) = js_sub n (Num x)"
  by (cases n) (simp_all add: inf_of_sign_def)

lemma js_mul_fallingFactorial:
  assumes "1 \<le> i"
  shows "js_mul d (fallingFactorial n i) =
           foldl js_mul d (map (\<lambda>j. js_sub n (Num (real j))) [1..<Suc i])"
proof -
  let ?f = "\<lambda>j. js_sub n (Num (real j))"
  from assms have "1 < Suc i" by simp
  then have split: "[1..<Suc i] = 1 # [Suc 1..<Suc i]"
    by (rule upt_conv_Cons)
  have "fallingFactorial n i = foldl js_mul (Num 1) (?f 1 # map ?f [Suc 1..<Suc i])"
    by (simp only: fallingFactorial_def fallingFactorial_loop_foldl split list.map)
  also have "\<dots> = foldl js_mul (?f 1) (map ?f [Suc 1..<Suc i])"
    by (simp add: js_mul_one_sub)
  finally have "js_mul d (fallingFactorial n i) = js_mul d (foldl js_mul (?f 1) (map ?f [Suc 1..<Suc i]))"
    by simp
  also have "\<dots> = foldl js_mul d (?f 1 # map ?f [Suc 1..<Suc i])"
    by (rule foldl_js_mul_Cons[symmetric])
  finally show ?thesis
    by (simp only: split list.map)
qed

lemma newton_step_formula_term:
  assumes "1 \<le> i"
  shows "newton_step (coefficients s) (terms s) n r i = js_add (formula_term exact_arith s n (Suc i)) r"
proof -
  have "Suc i - 2 = i - 1" by simp
  then show ?thesis
    by (simp add: newton_step_def formula_term_def exact_arith_def js_mul_fallingFactorial[OF assms])
qed

lemma formula_sum:
  "foldl (newton_step (coefficients s) (terms s) n) t0 [Suc 0..<m] =
     foldl js_add (hd (map (formula_term exact_arith s n) (rev [2..<Suc m]) @ [t0]))
                  (tl (map (formula_term exact_arith s n) (rev [2..<Suc m]) @ [t0]))"
proof (induction m)
  case 0
  show ?case by simp
next
  case (Suc m)
  show ?case
  proof (cases "m = 0")
    case True
    then show ?thesis by (simp add: eval_nat_numeral)
  next
    case False
    then have m: "1 \<le> m" by simp
    let ?xs = "map (formula_term exact_arith s n) (rev [2..<Suc m]) @ [t0]"
    have ne: "?xs = hd ?xs # tl ?xs" by simp
    have "foldl (newton_step (coefficients s) (terms s) n) t0 [Suc 0..<Suc m] =
            js_add (formula_term exact_arith s n (Suc m)) (foldl js_add (hd ?xs) (tl ?xs))"
      using m Suc.IH by (simp add: newton_step_formula_term)
    also have "\<dots> = foldl js_add (formula_term exact_arith s n (Suc m)) (hd ?xs # tl ?xs)"
      by (rule foldl_js_add_Cons[symmetric])
    also have "\<dots> = foldl js_add (formula_term exact_arith s n (Suc m)) ?xs"
      using ne by simp
    finally show ?thesis
      using m by (simp add: eval_nat_numeral)
  qed
qed

lemma formula_value_exact: "formula_value exact_arith s n = getNthTerm s n"
proof -
  have "a_add exact_arith = js_add"
    by (simp add: exact_arith_def)
  then show ?thesis
    by (simp only: formula_value_def Let_def getNthTerm_def interpolate_foldl
        formula_sum[of s n "js_index (terms s) 0" "length (terms s)"])
qed

lemma factorProduct_loop_concat:
  "i \<le> k \<Longrightarrow>
   factorProduct_loop k i acc =
     acc @ concat (map (\<lambda>j. ''(n-'' @ show_nat j @ '')'') [k - i..<k])"
proof (induction i arbitrary: acc)
  case 0
  show ?case by simp
next
  case (Suc i)
  then have "k - Suc i < k" by simp
  then have "[k - Suc i..<k] = (k - Suc i) # [Suc (k - Suc i)..<k]"
    by (rule upt_conv_Cons)
  moreover have "Suc (k - Suc i) = k - i"
    using Suc.prems by simp
  ultimately have split: "[k - Suc i..<k] = (k - Suc i) # [k - i..<k]"
    by simp
  have "i \<le> k" using Suc.prems by simp
  from Suc.IH[OF this] show ?case
    by (simp only: factorProduct_loop.simps split list.map concat.simps append_assoc)
qed

lemma toFormula_loop_concat:
  "toFormula_loop sh s k acc =
     acc @ concat (map (\<lambda>k. ''('' @ show_jsval sh (js_index (terms s) (k - 1)) @ '' - ''
                              @ show_jsval sh (js_index (coefficients s) (k - 2)) @ '')''
                              @ concat (map (\<lambda>j. ''(n-'' @ show_nat j @ '')'') [1..<k])
                              @ ''/'' @ show_nat (k - 1) @ ''!'' @ '' + '')
                       (rev [2..<Suc k]))"
proof (induction k arbitrary: acc)
  case 0
  show ?case by simp
next
  case (Suc k)
  show ?case
  proof (cases "k = 0")
    case True
    then show ?thesis by (simp add: eval_nat_numeral)
  next
    case False
    then have k: "1 \<le> k" "1 < Suc k" "2 \<le> Suc k" by simp_all
    have fp: "factorProduct_loop (Suc k) k [] =
                concat (map (\<lambda>j. ''(n-'' @ show_nat j @ '')'') [1..<Suc k])"
      using factorProduct_loop_concat[of k "Suc k" "[]"] by simp
    have r: "rev [2..<Suc (Suc k)] = Suc k # rev [2..<Suc k]"
      using k by simp
    have d: "Suc k - 2 = k - 1" by simp
    show ?thesis
      using k by (simp only: toFormula_loop.simps Let_def if_True Suc.IH fp r list.map
          concat.simps diff_Suc_1 d append_assoc)
  qed
qed

lemma toFormula_render:
  "toFormula sh s =
     '' f(n) = '' @ concat (map (render_summand sh s) (rev [2..<Suc (length (terms s))]))
     @ show_jsval sh (js_index (terms s) 0)"
proof -
  have "(\<lambda>k. ''('' @ show_jsval sh (js_index (terms s) (k - 1)) @ '' - ''
              @ show_jsval sh (js_index (coefficients s) (k - 2)) @ '')''
              @ concat (map (\<lambda>j. ''(n-'' @ show_nat j @ '')'') [1..<k])
              @ ''/'' @ show_nat (k - 1) @ ''!'' @ '' + '') = render_summand sh s"
    by (rule ext) (simp only: render_summand_def)
  then show ?thesis
    by (simp only: toFormula_def toFormula_loop_concat append_assoc)
qed

section \<open>Reading the rendered formula\<close>

lemma digit_of_digits: "d < 10 \<Longrightarrow> digit_of (''0123456789'' ! d) = d"
proof -
  assume "d < 10"
  then have "d \<in> {0, 1, 2, 3, 4, 5, 6, 7, 8, 9}" by auto
  then show ?thesis
    by (auto simp: digit_of_def)
qed

lemma read_nat_snoc: "read_nat (xs @ [c]) = 10 * read_nat xs + digit_of c"
  by (simp add: read_nat_def)

lemma read_nat_show_nat: "read_nat (show_nat n) = n"
proof (induction n rule: show_nat.induct)
  case (1 n)
  show ?case
  proof (cases "n < 10")
    case True
    then show ?thesis
      by (subst show_nat.simps) (simp add: read_nat_def digit_of_digits)
  next
    case False
    then have "read_nat (show_nat n) = 10 * read_nat (show_nat (n div 10)) + digit_of (''0123456789'' ! (n mod 10))"
      by (subst show_nat.simps) (simp add: read_nat_snoc)
    with False "1.IH" show ?thesis
      by (simp add: digit_of_digits)
  qed
qed

lemma show_nat_digits: "set (show_nat n) \<subseteq> set ''0123456789''"
proof (induction n rule: show_nat.induct)
  case (1 n)
  have d: "''0123456789'' ! d \<in> set ''0123456789''" if "d < 10" for d
    using that by (intro nth_mem) simp
  show ?case
  proof (cases "n < 10")
    case True
    then show ?thesis
      using d[of n] by (subst show_nat.simps) simp
  next
    case False
    with "1.IH" d[of "n mod 10"] show ?thesis
      by (subst show_nat.simps) simp
  qed
qed

lemma show_nat_no_paren: "CHR '')'' \<notin> set (show_nat n)" "CHR ''!'' \<notin> set (show_nat n)"
  using show_nat_digits[of n] by auto

lemma takeWhile_until: "c \<notin> set a \<Longrightarrow> takeWhile (\<lambda>x. x \<noteq> c) (a @ c # r) = a"
  by (induction a) auto

lemma dropWhile_until: "c \<notin> set a \<Longrightarrow> dropWhile (\<lambda>x. x \<noteq> c) (a @ c # r) = c # r"
  by (induction a) auto

lemma read_factors_concat:
  "length js \<le> fuel \<Longrightarrow>
   read_factors fuel (concat (map (\<lambda>j. ''(n-'' @ show_nat j @ '')'') js) @ CHR ''/'' # rest)
     = (js, CHR ''/'' # rest)"
proof (induction js arbitrary: fuel)
  case Nil
  show ?case
    by (cases fuel) (simp_all add: strip_prefix_def)
next
  case (Cons j js)
  then obtain f where f: "fuel = Suc f" "length js \<le> f"
    by (cases fuel) auto
  let ?X = "concat (map (\<lambda>j. ''(n-'' @ show_nat j @ '')'') js) @ CHR ''/'' # rest"
  have s: "strip_prefix ''(n-'' (concat (map (\<lambda>j. ''(n-'' @ show_nat j @ '')'') (j # js)) @ CHR ''/'' # rest)
             = Some (show_nat j @ CHR '')'' # ?X)"
    by (simp add: strip_prefix_def)
  have t: "takeWhile (\<lambda>c. c \<noteq> CHR '')'') (show_nat j @ CHR '')'' # ?X) = show_nat j"
    by (rule takeWhile_until) (rule show_nat_no_paren)
  have d: "dropWhile (\<lambda>c. c \<noteq> CHR '')'') (show_nat j @ CHR '')'' # ?X) = CHR '')'' # ?X"
    by (rule dropWhile_until) (rule show_nat_no_paren)
  show ?case
    unfolding f(1) read_factors.simps s option.case t d
    using Cons.IH[OF f(2)] by (simp add: read_nat_show_nat)
qed

lemma length_concat_factors:
  "length js \<le> length (concat (map (\<lambda>j. ''(n-'' @ show_nat j @ '')'') js) @ r)"
  by (induction js) auto

lemma read_summand_render:
  assumes "rd a = va" "CHR '' '' \<notin> set a" "rd b = vb" "CHR '')'' \<notin> set b"
  shows "read_summand A rd n
           (''('' @ a @ '' - '' @ b @ '')''
            @ concat (map (\<lambda>j. ''(n-'' @ show_nat j @ '')'') js)
            @ ''/'' @ show_nat d @ ''!'' @ '' + '' @ rest)
         = Some (a_div A (foldl (a_mul A) (a_sub A va vb) (map (\<lambda>j. a_sub A n (Num (real j))) js))
                         (a_fact A d),
                 rest)"
proof -
  let ?F = "concat (map (\<lambda>j. ''(n-'' @ show_nat j @ '')'') js)"
  let ?r5 = "show_nat d @ CHR ''!'' # '' + '' @ rest"
  let ?r4 = "CHR ''/'' # ?r5"
  let ?r3 = "?F @ ?r4"
  let ?r2 = "b @ CHR '')'' # ?r3"
  let ?r1 = "a @ CHR '' '' # ''- '' @ ?r2"
  have whole: "''('' @ a @ '' - '' @ b @ '')'' @ ?F @ ''/'' @ show_nat d @ ''!'' @ '' + '' @ rest
                 = CHR ''('' # ?r1"
    by simp
  have s1: "strip_prefix ''('' (CHR ''('' # ?r1) = Some ?r1"
    by (simp add: strip_prefix_def)
  have t1: "takeWhile (\<lambda>c. c \<noteq> CHR '' '') ?r1 = a"
    by (rule takeWhile_until) (rule assms)
  have d1: "dropWhile (\<lambda>c. c \<noteq> CHR '' '') ?r1 = CHR '' '' # ''- '' @ ?r2"
    by (rule dropWhile_until) (rule assms)
  have s2: "strip_prefix '' - '' (CHR '' '' # ''- '' @ ?r2) = Some ?r2"
    by (simp add: strip_prefix_def)
  have t2: "takeWhile (\<lambda>c. c \<noteq> CHR '')'') ?r2 = b"
    by (rule takeWhile_until) (rule assms)
  have d2: "dropWhile (\<lambda>c. c \<noteq> CHR '')'') ?r2 = CHR '')'' # ?r3"
    by (rule dropWhile_until) (rule assms)
  have s3: "strip_prefix '')'' (CHR '')'' # ?r3) = Some ?r3"
    by (simp add: strip_prefix_def)
  have rf: "read_factors (length ?r3) ?r3 = (js, ?r4)"
    by (rule read_factors_concat) (rule length_concat_factors)
  have s4: "strip_prefix ''/'' ?r4 = Some ?r5"
    by (simp add: strip_prefix_def)
  have t5: "takeWhile (\<lambda>c. c \<noteq> CHR ''!'') ?r5 = show_nat d"
    by (rule takeWhile_until) (rule show_nat_no_paren)
  have d5: "dropWhile (\<lambda>c. c \<noteq> CHR ''!'') ?r5 = CHR ''!'' # '' + '' @ rest"
    by (rule dropWhile_until) (rule show_nat_no_paren)
  have s6: "strip_prefix ''! + '' (CHR ''!'' # '' + '' @ rest) = Some rest"
    by (simp add: strip_prefix_def)
  show ?thesis
    unfolding whole read_summand_def s1 option.case t1 d1 s2 t2 d2 s3 rf prod.case s4 t5 d5 s6
    by (simp add: assms read_nat_show_nat)
qed

lemma read_summand_render_summand:
  assumes "readable sh rd (js_index (terms s) (k - 1))"
    and "readable sh rd (js_index (coefficients s) (k - 2))"
  shows "read_summand A rd n (render_summand sh s k @ rest) = Some (formula_term A s n k, rest)"
proof -
  have "read_summand A rd n
          (''('' @ show_jsval sh (js_index (terms s) (k - 1)) @ '' - ''
           @ show_jsval sh (js_index (coefficients s) (k - 2)) @ '')''
           @ concat (map (\<lambda>j. ''(n-'' @ show_nat j @ '')'') [1..<k])
           @ ''/'' @ show_nat (k - 1) @ ''!'' @ '' + '' @ rest)
        = Some (formula_term A s n k, rest)"
    unfolding formula_term_def
    using assms by (intro read_summand_render) (simp_all add: readable_def)
  then show ?thesis
    by (simp only: render_summand_def append_assoc)
qed

lemma take1_render_summand: "take 1 (render_summand sh s k @ rest) = ''(''"
  by (simp add: render_summand_def)

lemma read_sum_render:
  assumes "\<forall>k\<in>set ks. readable sh rd (js_index (terms s) (k - 1))
                       \<and> readable sh rd (js_index (coefficients s) (k - 2))"
    and "length ks < fuel" and "take 1 C \<noteq> ''(''"
  shows "read_sum A rd n fuel acc (concat (map (render_summand sh s) ks) @ C) =
           Some (case acc of
                   None \<Rightarrow> foldl (a_add A) (hd (map (formula_term A s n) ks @ [rd C]))
                                              (tl (map (formula_term A s n) ks @ [rd C]))
                 | Some a \<Rightarrow> foldl (a_add A) a (map (formula_term A s n) ks @ [rd C]))"
  using assms(1,2)
proof (induction ks arbitrary: fuel acc)
  case Nil
  then obtain f where "fuel = Suc f" by (cases fuel) auto
  then show ?case
    using assms(3) by (cases acc) simp_all
next
  case (Cons k ks)
  then obtain f where f: "fuel = Suc f" "length ks < f"
    by (cases fuel) auto
  let ?rest = "concat (map (render_summand sh s) ks) @ C"
  have str: "concat (map (render_summand sh s) (k # ks)) @ C = render_summand sh s k @ ?rest"
    by simp
  have rs: "read_summand A rd n (render_summand sh s k @ ?rest) = Some (formula_term A s n k, ?rest)"
    using Cons.prems(1) by (intro read_summand_render_summand) simp_all
  have ih: "read_sum A rd n f acc' ?rest =
              Some (case acc' of
                      None \<Rightarrow> foldl (a_add A) (hd (map (formula_term A s n) ks @ [rd C]))
                                                 (tl (map (formula_term A s n) ks @ [rd C]))
                    | Some a \<Rightarrow> foldl (a_add A) a (map (formula_term A s n) ks @ [rd C]))" for acc'
    using Cons.prems(1) f(2) by (intro Cons.IH) simp_all
  show ?case
    unfolding str f(1) read_sum.simps take1_render_summand rs
    by (cases acc) (simp_all add: ih)
qed

lemma length_concat_render:
  "length ks \<le> length (concat (map (render_summand sh s) ks) @ r)"
  by (induction ks) (auto simp: render_summand_def)

lemma eval_formula_render:
  assumes "readable_engine sh rd s"
  shows "eval_formula A rd (toFormula sh s) n = Some (formula_value A s n)"
proof -
  let ?ks = "rev [2..<Suc (length (terms s))]"
  let ?C = "show_jsval sh (js_index (terms s) 0)"
  let ?r = "concat (map (render_summand sh s) ?ks) @ ?C"
  from assms have r0: "readable sh rd (js_index (terms s) 0)"
    and rk: "\<forall>k\<in>set ?ks. readable sh rd (js_index (terms s) (k - 1))
                         \<and> readable sh rd (js_index (coefficients s) (k - 2))"
    by (simp_all add: readable_engine_def list_all_iff)
  have C1: "take 1 ?C \<noteq> ''(''"
    using r0 by (cases ?C) (auto simp: readable_def)
  have C2: "rd ?C = js_index (terms s) 0"
    using r0 by (simp add: readable_def)
  have fuel: "length ?ks < Suc (length ?r)"
    using length_concat_render[of ?ks sh s ?C] by simp
  have sp: "strip_prefix '' f(n) = '' (toFormula sh s) = Some ?r"
    by (simp add: toFormula_render strip_prefix_def)
  show ?thesis
    unfolding eval_formula_def sp option.case read_sum_render[OF rk fuel C1] C2
    by (simp add: formula_value_def Let_def)
qed

lemma show_nat_small:
  "show_nat 0 = ''0''" "show_nat (Suc 0) = ''1''" "show_nat 2 = ''2''" "show_nat 3 = ''3''"
  "show_nat 4 = ''4''" "show_nat 5 = ''5''" "show_nat 6 = ''6''" "show_nat 7 = ''7''"
  "show_nat 8 = ''8''" "show_nat 9 = ''9''"
  by (simp_all add: show_nat.simps)

lemma readable_digit:
  "readable show_num_int read_jsval (Num 1)" "readable show_num_int read_jsval (Num 2)"
  "readable show_num_int read_jsval (Num 4)" "readable show_num_int read_jsval (Num 6)"
  "readable show_num_int read_jsval (Num 7)" "readable show_num_int read_jsval (Num 8)"
  "readable show_num_int read_jsval (Num 9)"
  by (simp_all add: readable_def show_jsval_def show_num_int_def read_jsval_def show_nat_small
      read_nat_def digit_of_def)

lemma Sequence_new_149:
  "Sequence_new [Num 1, Num 4, Num 9] =
     \<lparr>terms = [Num 1, Num 4, Num 9], coefficients = [Num 1, Num 7, Undef]\<rparr>"
  using coefficients_numeric[of "[1, 4, 9]"] terms_Sequence_new[of "[Num 1, Num 4, Num 9]"]
  by (cases "Sequence_new [Num 1, Num 4, Num 9]") (simp add: coeffs_upto_def eval_nat_numeral)

lemma readable_engine_149:
  "readable_engine show_num_int read_jsval (Sequence_new [Num 1, Num 4, Num 9])"
  by (simp add: Sequence_new_149 readable_engine_def readable_digit js_index_def upt_rec)

section \<open>Overflow in binary64 arithmetic\<close>

lemmas eval64 = max64_def overflow64_def js_sub64_def js_mul64_def js_add64_def js_div64_def
  inf_of_sign_def js_index_def
  factorial64_def factorial64_loop.simps fallingFactorial64_def fallingFactorial64_loop.simps
  computeCoefficient64_def computeCoefficient64_loop.simps
  interpolate64_def interpolate64_loop.simps constructor64_loop.simps

lemma Sequence_new64_2468:
  "Sequence_new64 [Num 2, Num 4, Num 6, Num 8] =
     \<lparr>terms = [Num 2, Num 4, Num 6, Num 8], coefficients = [Num 2, Num 6, Num 8, Undef]\<rparr>"
  by (simp add: Sequence_new64_def eval64 Let_def)

lemma max64_gt: "8 < max64"
  by (simp add: max64_def)

lemma overflow64_fin: "\<bar>x\<bar> < max64 \<Longrightarrow> overflow64 (Num x) = Num x"
  by (simp add: overflow64_def)

lemma overflow64_pos: "max64 \<le> x \<Longrightarrow> overflow64 (Num x) = PInf"
  using max64_gt by (simp add: overflow64_def inf_of_sign_def)

lemma overflow64_other [simp]:
  "overflow64 PInf = PInf" "overflow64 NInf = NInf" "overflow64 NaN = NaN" "overflow64 Undef = Undef"
  by (simp_all add: overflow64_def)

lemma factorial64_small:
  "factorial64 (Suc 0) = Num 1" "factorial64 (Suc (Suc 0)) = Num 2"
  "factorial64 (Suc (Suc (Suc 0))) = Num 6"
  using max64_gt
  by (simp_all add: factorial64_def factorial64_loop.simps js_mul64_def overflow64_fin)

lemma interpolate64_2468_overflow:
  fixes N :: real
  assumes N: "4 \<le> N" "4 * N \<le> max64" and big: "max64 \<le> (N - 1) * (N - 2)"
  shows "interpolate64 [Num 2, Num 6, Num 8, Undef] [Num 2, Num 4, Num 6, Num 8] (Num N) = NaN"
proof -
  have small: "\<bar>N - 1\<bar> < max64" "\<bar>N - 2\<bar> < max64" "\<bar>N - 3\<bar> < max64"
    "\<bar>2 * (N - 1)\<bar> < max64" "\<bar>2 * (N - 1) + 2\<bar> < max64"
    "\<bar>2::real\<bar> < max64" "\<bar>0::real\<bar> < max64"
    using N max64_gt by simp_all
  have ff1: "fallingFactorial64 (Num N) (Suc 0) = Num (N - 1)"
    using small by (simp add: fallingFactorial64_def fallingFactorial64_loop.simps js_mul64_def
        js_sub64_def overflow64_fin)
  have ff2: "fallingFactorial64 (Num N) (Suc (Suc 0)) = PInf"
    using small big by (simp add: fallingFactorial64_def fallingFactorial64_loop.simps js_mul64_def
        js_sub64_def overflow64_fin overflow64_pos)
  have ff3: "fallingFactorial64 (Num N) (Suc (Suc (Suc 0))) = PInf"
    using small big N by (simp add: fallingFactorial64_def fallingFactorial64_loop.simps js_mul64_def
        js_sub64_def overflow64_fin overflow64_pos inf_of_sign_def)
  show ?thesis
    using small
    by (simp add: interpolate64_def interpolate64_loop.simps js_index_def ff1 ff2 ff3
        factorial64_small js_sub64_def js_mul64_def js_div64_def js_add64_def overflow64_fin
        inf_of_sign_def)
qed

lemma max64_split: "max64 = 2 ^ 512 * 2 ^ 512"
  unfolding max64_def by (subst power_add[symmetric]) simp

lemma factorial64_small_num:
  "factorial64 1 = Num 1" "factorial64 2 = Num 2" "factorial64 3 = Num 6"
  using factorial64_small by (simp_all add: eval_nat_numeral)

lemma formula_value64_2468:
  fixes N :: real
  assumes N: "4 \<le> N" "4 * N \<le> max64"
  shows "formula_value binary64_arith
           \<lparr>terms = [Num 2, Num 4, Num 6, Num 8], coefficients = [Num 2, Num 6, Num 8, Undef]\<rparr>
           (Num N) = Num (2 * N)"
proof -
  have small: "\<bar>N - 1\<bar> < max64" "\<bar>N - 2\<bar> < max64" "\<bar>N - 3\<bar> < max64"
    "\<bar>2 * (N - 1)\<bar> < max64" "\<bar>2 * N\<bar> < max64"
    "\<bar>2::real\<bar> < max64" "\<bar>0::real\<bar> < max64"
    using N max64_gt by simp_all
  have e: "2 * (N - 1) + 2 = 2 * N"
    by simp
  have ks: "rev [2..<Suc 4] = [4, 3, 2]" "[1..<4] = [1, 2, 3]" "[1..<3] = [1, 2]" "[1..<2] = [1::nat]"
    by (simp_all add: upt_rec)
  show ?thesis
    using small e
    by (simp add: formula_value_def formula_term_def binary64_arith_def ks js_index_def
        factorial64_small_num factorial64_small js_sub64_def js_mul64_def js_div64_def js_add64_def
        overflow64_fin)
qed

lemma readable_engine_2468:
  "readable_engine show_num_int read_jsval
     \<lparr>terms = [Num 2, Num 4, Num 6, Num 8], coefficients = [Num 2, Num 6, Num 8, Undef]\<rparr>"
  by (simp add: readable_engine_def readable_digit js_index_def upt_rec)

lemma interpolate64_2468_exact:
  fixes N :: real
  assumes N: "\<bar>N\<bar> \<le> 2 ^ 340"
  shows "interpolate64 [Num 2, Num 6, Num 8, Undef] [Num 2, Num 4, Num 6, Num 8] (Num N) = Num (2 * N)"
proof -
  define B :: real where "B = 2 ^ 341"
  have B3: "B * B * B = 2 ^ 1023" and B2: "B * B = 2 ^ 682"
    unfolding B_def by (simp_all only: power_add[symmetric]) simp_all
  have B: "B * B * B < max64" "B * B < max64" "2 * B + 2 < max64" "B < max64" "0 \<le> B"
    unfolding max64_def B3 B2 by (simp_all add: B_def)
  have "\<bar>N\<bar> + 3 \<le> B"
    using N unfolding B_def by simp
  then have b: "\<bar>N - 1\<bar> \<le> B" "\<bar>N - 2\<bar> \<le> B" "\<bar>N - 3\<bar> \<le> B"
    by linarith+
  have p2: "\<bar>(N - 1) * (N - 2)\<bar> \<le> B * B"
    unfolding abs_mult using b by (intro mult_mono) simp_all
  have p3: "\<bar>(N - 1) * (N - 2) * (N - 3)\<bar> \<le> B * B * B"
    unfolding abs_mult[of "(N - 1) * (N - 2)"] using b p2 B(5) by (intro mult_mono) simp_all
  have "\<bar>2 * (N - 1)\<bar> \<le> 2 * B" "\<bar>2 * (N - 1) + 2\<bar> \<le> 2 * B + 2"
    using b(1) by simp_all
  then have small: "\<bar>N - 1\<bar> < max64" "\<bar>N - 2\<bar> < max64" "\<bar>N - 3\<bar> < max64"
    "\<bar>(N - 1) * (N - 2)\<bar> < max64" "\<bar>(N - 1) * (N - 2) * (N - 3)\<bar> < max64"
    "\<bar>2 * (N - 1)\<bar> < max64" "\<bar>2 * (N - 1) + 2\<bar> < max64"
    "\<bar>2::real\<bar> < max64" "\<bar>0::real\<bar> < max64"
    using b p2 p3 B max64_gt by linarith+
  have ff1: "fallingFactorial64 (Num N) (Suc 0) = Num (N - 1)"
    using small by (simp add: fallingFactorial64_def fallingFactorial64_loop.simps js_mul64_def
        js_sub64_def overflow64_fin)
  have ff2: "fallingFactorial64 (Num N) (Suc (Suc 0)) = Num ((N - 1) * (N - 2))"
    using small by (simp add: fallingFactorial64_def fallingFactorial64_loop.simps js_mul64_def
        js_sub64_def overflow64_fin)
  have ff3: "fallingFactorial64 (Num N) (Suc (Suc (Suc 0))) = Num ((N - 1) * (N - 2) * (N - 3))"
    using small by (simp add: fallingFactorial64_def fallingFactorial64_loop.simps js_mul64_def
        js_sub64_def overflow64_fin)
  have e: "2 * (N - 1) + 2 = 2 * N" "\<bar>2 * N\<bar> < max64"
    using small(7) by simp_all
  show ?thesis
    using small e
    by (simp add: interpolate64_def interpolate64_loop.simps js_index_def ff1 ff2 ff3
        factorial64_small js_sub64_def js_mul64_def js_div64_def js_add64_def overflow64_fin)
qed

section \<open>The claims\<close>



text \<open>
  Claim C2 (coefficient construction). For an engine constructed from \<open>m \<ge> 2\<close> numeric
  terms and each \<open>k\<close> in \<open>1..m-1\<close>, the stored coefficient \<open>c[k-1]\<close> is the value at
  \<open>n = k+1\<close> of the interpolation formula over the prefix \<open>t[0..k-1]\<close> built from the
  coefficients \<open>c[0..k-2]\<close> alone: the running value before the newest term \<open>t[k]\<close> is
  incorporated.
\<close>

theorem coefficient_construction:
  assumes "1 \<le> k" "k < length rs"
  shows "coefficients (Sequence_new (map Num rs)) ! (k - 1) =
           interpolate (take (k - 1) (coefficients (Sequence_new (map Num rs))))
             (take k (map Num rs)) (Num (real (k + 1)))"
proof -
  let ?m = "length rs"
  let ?cs = "coefficients (Sequence_new (map Num rs))"
  have km: "k - 1 < ?m - 1" using assms by simp
  have lhs: "?cs ! (k - 1) = Num (newton_poly rs (k - 1) (real (k + 1)))"
    using coefficients_numeric_nth[OF km] assms by simp
  have t: "\<forall>j<k. js_index (map Num rs) j = Num (rs ! j)"
    using assms by (simp add: js_index_def)
  have c: "\<forall>j<k - 1. js_index (take (k - 1) ?cs) j = Num (newton_poly rs j (real (j + 2)))"
    using km by (simp add: js_index_take coefficients_numeric coeffs_upto_lt)
  have kl: "k \<le> ?m" "k \<le> length (map Num rs)" using assms by simp_all
  have "interpolate (take (k - 1) ?cs) (take k (map Num rs)) (Num (real (k + 1))) =
          Num (newton_poly rs (k - 1) (real (k + 1)))"
    by (simp only: interpolate_prefix[OF assms(1) kl(2)] foldl_newton_poly[OF assms(1) kl(1) t c])
  with lhs show ?thesis
    by simp
qed

theorem coefficient_construction_witness:
  "coefficients (Sequence_new [Num 10, Num 100, Num 1000]) ! 1 =
     interpolate (take 1 (coefficients (Sequence_new [Num 10, Num 100, Num 1000])))
       [Num 10, Num 100] (Num 3)"
  using coefficient_construction[of 2 "[10, 100, 1000]"] by simp

text \<open>
  Claim C3, as stated: constructing an engine from the empty term list fails with an
  \<open>InvalidArgument\<close> condition saying "at least one term required". The constructor does
  not: at the empty list it completes and yields an instance.
\<close>

theorem zero_term_construction_no_error:
  "construct [] = Inr \<lparr>terms = [], coefficients = []\<rparr>
   \<and> construct [] \<noteq> Inl (InvalidArgument ''at least one term required'')"
  by (simp add: construct_def Sequence_new_def constructor_loop_Nil)

text \<open>
  Claim C3, amended: construction never fails; from the empty term list it yields an
  engine with no terms and an empty coefficient table, and \<^verbatim>\<open>getNthTerm(n)\<close> of that engine
  is \<open>undefined\<close> for every \<open>n\<close>.
\<close>

theorem zero_term_construction:
  "construct ts \<noteq> Inl e
   \<and> construct [] = Inr (Sequence_new [])
   \<and> terms (Sequence_new []) = [] \<and> coefficients (Sequence_new []) = []
   \<and> getNthTerm (Sequence_new []) n = Undef"
  by (simp add: construct_def Sequence_new_def constructor_loop_Nil getNthTerm_def
      interpolate_def interpolate_loop.simps js_index_def)

text \<open>
  Claim C4, as stated: the coefficient table is a list of numeric values of the length of
  the term sequence, and a construction from one term produces an empty table. The table
  of a one-term engine has one slot, and that slot is unassigned.
\<close>

theorem one_term_table_not_empty:
  "coefficients (Sequence_new [Num 5]) = [Undef]
   \<and> coefficients (Sequence_new [Num 5]) \<noteq> []
   \<and> coefficients (Sequence_new [Num 5]) ! 0 = Undef"
proof -
  have "constructor_loop [Num 5] 1 [Undef] = [Undef]"
    by (subst constructor_loop.simps) simp
  then show ?thesis
    by (simp add: Sequence_new_def)
qed

text \<open>
  Claim C4, amended: for an engine constructed from \<open>m \<ge> 1\<close> numeric terms the
  coefficient table has length \<open>m\<close>; its last slot \<open>m-1\<close> is unassigned; every slot
  \<open>i < m-1\<close> holds a number, the same that the construction from the prefix
  \<open>terms[0..i+1]\<close> stores at \<open>i\<close>. A one-term construction thus has a table of one
  unassigned slot and no coefficient.
\<close>

theorem coefficient_table_shape:
  assumes "rs \<noteq> []"
  shows "length (coefficients (Sequence_new (map Num rs))) = length rs
     \<and> coefficients (Sequence_new (map Num rs)) ! (length rs - 1) = Undef
     \<and> (\<forall>i<length rs - 1.
           (\<exists>r. coefficients (Sequence_new (map Num rs)) ! i = Num r)
           \<and> coefficients (Sequence_new (map Num rs)) ! i =
               coefficients (Sequence_new (take (i + 2) (map Num rs))) ! i)"
proof -
  let ?m = "length rs"
  let ?cs = "coeffs_upto rs ?m (?m - 1)"
  from assms have m: "0 < ?m" by simp
  have len: "length ?cs = ?m"
    by (simp add: length_coeffs_upto)
  have nth: "?cs ! j = js_index ?cs j" if "j < ?m" for j
    using that len by (simp add: js_index_def)
  have last: "?cs ! (?m - 1) = Undef"
    using m nth[of "?m - 1"] coeffs_upto_ge[of "?m - 1" "?m - 1" rs ?m] by simp
  have entry: "?cs ! i = Num (newton_poly rs i (real (i + 2)))" if "i < ?m - 1" for i
    using that nth[of i] coeffs_upto_lt[of i "?m - 1" rs ?m] by simp
  have prefix: "coefficients (Sequence_new (take (i + 2) (map Num rs))) ! i
                  = Num (newton_poly rs i (real (i + 2)))" if "i < ?m - 1" for i
  proof -
    let ?ps = "take (i + 2) rs"
    have pl: "length ?ps = i + 2" using that by simp
    have "coefficients (Sequence_new (map Num ?ps)) = coeffs_upto ?ps (i + 2) (i + 1)"
      using coefficients_numeric[of ?ps] by (simp only: pl) simp
    moreover have "js_index (coeffs_upto ?ps (i + 2) (i + 1)) i
                     = Num (newton_poly ?ps i (real (i + 2)))"
      by (rule coeffs_upto_lt) simp
    moreover have "length (coeffs_upto ?ps (i + 2) (i + 1)) = i + 2"
      by (simp add: length_coeffs_upto)
    ultimately have "coefficients (Sequence_new (map Num ?ps)) ! i
                       = Num (newton_poly ?ps i (real (i + 2)))"
      by (simp add: js_index_def)
    then show ?thesis
      by (simp add: take_map newton_poly_take)
  qed
  have "length ?cs = ?m \<and> ?cs ! (?m - 1) = Undef
     \<and> (\<forall>i<?m - 1. (\<exists>r. ?cs ! i = Num r)
           \<and> ?cs ! i = coefficients (Sequence_new (take (i + 2) (map Num rs))) ! i)"
    using len last entry prefix by simp
  then show ?thesis
    unfolding coefficients_numeric .
qed

theorem coefficient_table_shape_witness:
  "length (coefficients (Sequence_new (map Num [2, 4, 6]))) = 3
   \<and> coefficients (Sequence_new (map Num [2, 4, 6])) ! 2 = Undef
   \<and> (\<exists>r. coefficients (Sequence_new (map Num [2, 4, 6])) ! 1 = Num r)"
proof -
  have h: "[2, 4, 6 :: real] \<noteq> []" by simp
  have i: "(1::nat) < length [2, 4, 6 :: real] - 1" by simp
  from coefficient_table_shape[OF h] i
  have "\<exists>r. coefficients (Sequence_new (map Num [2, 4, 6])) ! 1 = Num r"
    by blast
  moreover from coefficient_table_shape[OF h]
  have "length (coefficients (Sequence_new (map Num [2, 4, 6]))) = length [2, 4, 6 :: real]"
    and "coefficients (Sequence_new (map Num [2, 4, 6])) ! (length [2, 4, 6 :: real] - 1) = Undef"
    by blast+
  ultimately show ?thesis
    by (simp add: eval_nat_numeral)
qed

text \<open>
  Claim C5 (single-term constant). An engine constructed from exactly one term \<open>t\<close>
  returns \<open>t\<close> from \<^verbatim>\<open>getNthTerm(n)\<close> for every \<open>n\<close>.
\<close>

theorem single_term_constant: "getNthTerm (Sequence_new [t]) n = t"
proof -
  have "constructor_loop [t] 1 [Undef] = [Undef]"
    by (subst constructor_loop.simps) simp
  then show ?thesis
    by (simp add: getNthTerm_def Sequence_new_def interpolate_def interpolate_loop.simps js_index_def)
qed

text \<open>
  Claim C6, as stated: for every engine and every number \<open>n\<close>, the arithmetic value of
  the string that \<^verbatim>\<open>toFormula()\<close> returns equals \<^verbatim>\<open>getNthTerm(n)\<close>. In binary64
  arithmetic it does not. For the terms 2, 4, 6, 8 at \<open>n = 2^700\<close> the string has the value
  \<open>2^701\<close>: a vanishing coefficient difference is multiplied by the factors one at a time
  and stays 0. \<^verbatim>\<open>getNthTerm\<close> multiplies it by a falling factorial that has overflowed to
  \<open>Infinity\<close>, and returns \<open>NaN\<close>.
\<close>

theorem formula_string_overflow:
  "eval_formula binary64_arith read_jsval
     (toFormula show_num_int (Sequence_new64 [Num 2, Num 4, Num 6, Num 8])) (Num (2 ^ 700))
     = Some (Num (2 * 2 ^ 700))
   \<and> getNthTerm64 (Sequence_new64 [Num 2, Num 4, Num 6, Num 8]) (Num (2 ^ 700)) = NaN"
proof -
  have a: "(4::real) \<le> 2 ^ 700" "4 * (2::real) ^ 700 \<le> max64"
    by (simp_all add: max64_def)
  have "(2::real) ^ 512 * 2 ^ 512 \<le> (2 ^ 700 - 1) * (2 ^ 700 - 2)"
    by (intro mult_mono) simp_all
  then have b: "max64 \<le> (2 ^ 700 - 1) * (2 ^ 700 - 2)"
    by (simp only: max64_split)
  have v: "eval_formula binary64_arith read_jsval
             (toFormula show_num_int (Sequence_new64 [Num 2, Num 4, Num 6, Num 8])) (Num (2 ^ 700))
           = Some (Num (2 * 2 ^ 700))"
    by (simp only: Sequence_new64_2468 eval_formula_render[OF readable_engine_2468]
        formula_value64_2468[OF a])
  have g: "getNthTerm64 (Sequence_new64 [Num 2, Num 4, Num 6, Num 8]) (Num (2 ^ 700)) = NaN"
    by (simp only: getNthTerm64_def Sequence_new64_2468 Sequence.simps
        interpolate64_2468_overflow[OF a b])
  from v g show ?thesis ..
qed

text \<open>
  Claim C6, amended: in exact arithmetic (that is, up to floating-point rounding and
  overflow), for every engine whose rendered terms and coefficients can be read back and
  for every \<open>n\<close>, reading the string that \<^verbatim>\<open>toFormula()\<close> returns, with \<open>n\<close> substituted,
  gives \<^verbatim>\<open>getNthTerm(n)\<close>.
\<close>

theorem formula_string_value:
  assumes "readable_engine sh rd s"
  shows "eval_formula exact_arith rd (toFormula sh s) n = Some (getNthTerm s n)"
  by (simp only: eval_formula_render[OF assms] formula_value_exact)

theorem formula_string_value_witness:
  "readable_engine show_num_int read_jsval (Sequence_new [Num 1, Num 4, Num 9])
   \<and> eval_formula exact_arith read_jsval
         (toFormula show_num_int (Sequence_new [Num 1, Num 4, Num 9])) (Num 5)
       = Some (Num 25)"
proof -
  have v: "getNthTerm (Sequence_new (map Num [1, 4, 9])) (Num 5) = Num 25"
    by (subst getNthTerm_numeric) (simp_all add: prod.atLeast_Suc_atMost)
  from formula_string_value[OF readable_engine_149, of "Num 5"] readable_engine_149 v
  show ?thesis
    by simp
qed

text \<open>
  Claim C7 (structure of the rendered formula). \<^verbatim>\<open>toFormula()\<close> returns the string
  \<^verbatim>\<open> f(n) = \<close> followed by one summand for each \<open>k\<close> from \<open>m\<close> down to 2, each made of
  \<^verbatim>\<open>(t[k-1] - c[k-2])\<close>, the factors \<^verbatim>\<open>(n-j)\<close> for \<open>j = 1..k-1\<close>, the denominator
  \<^verbatim>\<open>/(k-1)!\<close> and the separator \<^verbatim>\<open> + \<close>, and ended by the constant \<open>t[0]\<close>.
\<close>

theorem toFormula_structure:
  "toFormula sh s =
     '' f(n) = ''
     @ concat (map (\<lambda>k. ''('' @ show_jsval sh (js_index (terms s) (k - 1)) @ '' - ''
                          @ show_jsval sh (js_index (coefficients s) (k - 2)) @ '')''
                          @ concat (map (\<lambda>j. ''(n-'' @ show_nat j @ '')'') [1..<k])
                          @ ''/'' @ show_nat (k - 1) @ ''!'' @ '' + '')
                   (rev [2..<Suc (length (terms s))]))
     @ show_jsval sh (js_index (terms s) 0)"
  by (simp only: toFormula_def toFormula_loop_concat append_assoc)

text \<open>
  The engine of the terms 1, 4, 9 renders as follows, whatever the conversion of numbers
  to strings is.
\<close>

lemma toFormula_example:
  "toFormula sh (Sequence_new [Num 1, Num 4, Num 9]) =
     '' f(n) = ('' @ sh 9 @ '' - '' @ sh 7 @ '')(n-1)(n-2)/2! + (''
       @ sh 4 @ '' - '' @ sh 1 @ '')(n-1)/1! + '' @ sh 1"
proof -
  have c: "coefficients (Sequence_new [Num 1, Num 4, Num 9]) = [Num 1, Num 7, Undef]"
    using coefficients_numeric[of "[1, 4, 9]"] by (simp add: coeffs_upto_def eval_nat_numeral)
  have t: "terms (Sequence_new [Num 1, Num 4, Num 9]) = [Num 1, Num 4, Num 9]"
    by (simp add: terms_Sequence_new)
  have n: "show_nat 1 = ''1''" "show_nat 2 = ''2''"
    by (simp_all add: show_nat.simps)
  show ?thesis
    using c t n
    by (simp add: toFormula_def eval_nat_numeral js_index_def show_jsval_def)
qed

text \<open>
  Claim C8, as stated: the engine constructed from 2, 4, 6, 8 returns \<open>2n\<close> at every
  number \<open>n\<close>. In binary64 arithmetic it returns \<open>NaN\<close> at \<open>n = 2^700\<close>, where \<open>2n\<close> is
  the number \<open>2^701\<close>: the falling factorial \<open>(n-1)(n-2)\<close> overflows and is multiplied by
  the vanishing difference \<open>6 - 6\<close>.
\<close>

theorem linearity_overflow:
  "getNthTerm64 (Sequence_new64 [Num 2, Num 4, Num 6, Num 8]) (Num (2 ^ 700)) = NaN
   \<and> js_mul64 (Num 2) (Num (2 ^ 700)) = Num (2 * 2 ^ 700)"
proof -
  have a: "(4::real) \<le> 2 ^ 700" "4 * (2::real) ^ 700 \<le> max64"
    by (simp_all add: max64_def)
  have "(2::real) ^ 512 * 2 ^ 512 \<le> (2 ^ 700 - 1) * (2 ^ 700 - 2)"
    by (intro mult_mono) simp_all
  then have b: "max64 \<le> (2 ^ 700 - 1) * (2 ^ 700 - 2)"
    by (simp only: max64_split)
  have g: "getNthTerm64 (Sequence_new64 [Num 2, Num 4, Num 6, Num 8]) (Num (2 ^ 700)) = NaN"
    by (simp only: getNthTerm64_def Sequence_new64_2468 Sequence.simps
        interpolate64_2468_overflow[OF a b])
  have "\<bar>2 * (2::real) ^ 700\<bar> < max64"
    using a(2) by simp
  then have m: "js_mul64 (Num 2) (Num (2 ^ 700)) = Num (2 * 2 ^ 700)"
    by (simp add: js_mul64_def overflow64_fin)
  from g m show ?thesis ..
qed

text \<open>
  Claim C8, amended: in exact arithmetic (up to floating-point rounding) the engine
  constructed from 2, 4, 6, 8 returns \<open>2n\<close> at every finite number \<open>n\<close>. In binary64
  arithmetic without rounding it returns \<open>2n\<close> at every \<open>n\<close> of magnitude at most \<open>2^340\<close>,
  where no intermediate product overflows; in particular it returns 10 at 5 and \<open>-2\<close> at
  \<open>-1\<close>.
\<close>

theorem arithmetic_sequence_linearity:
  "getNthTerm (Sequence_new [Num 2, Num 4, Num 6, Num 8]) (Num x) = Num (2 * x)
   \<and> (\<bar>x\<bar> \<le> 2 ^ 340 \<longrightarrow>
        getNthTerm64 (Sequence_new64 [Num 2, Num 4, Num 6, Num 8]) (Num x) = Num (2 * x))
   \<and> getNthTerm64 (Sequence_new64 [Num 2, Num 4, Num 6, Num 8]) (Num 5) = Num 10
   \<and> getNthTerm64 (Sequence_new64 [Num 2, Num 4, Num 6, Num 8]) (Num (- 1)) = Num (- 2)"
proof -
  have exact: "getNthTerm (Sequence_new (map Num [2, 4, 6, 8])) (Num x) = Num (2 * x)"
    by (subst getNthTerm_numeric) (simp_all add: newton_poly_2468)
  have b64: "getNthTerm64 (Sequence_new64 [Num 2, Num 4, Num 6, Num 8]) (Num y) = Num (2 * y)"
    if "\<bar>y\<bar> \<le> 2 ^ 340" for y
    by (simp only: getNthTerm64_def Sequence_new64_2468 Sequence.simps
        interpolate64_2468_exact[OF that])
  have "\<bar>5::real\<bar> \<le> 2 ^ 340" "\<bar>- 1::real\<bar> \<le> 2 ^ 340"
    by simp_all
  from b64[OF this(1)] b64[OF this(2)] exact b64[of x] show ?thesis
    by simp
qed

theorem arithmetic_sequence_linearity_witness:
  "\<bar>3::real\<bar> \<le> 2 ^ 340
   \<and> getNthTerm64 (Sequence_new64 [Num 2, Num 4, Num 6, Num 8]) (Num 3) = Num 6"
proof -
  have h: "\<bar>3::real\<bar> \<le> 2 ^ 340"
    by simp
  from arithmetic_sequence_linearity[of 3] h
  have "getNthTerm64 (Sequence_new64 [Num 2, Num 4, Num 6, Num 8]) (Num 3) = Num (2 * 3)"
    by blast
  with h show ?thesis
    by simp
qed

text \<open>
  Claim C9. For every number \<open>n\<close> and every non-negative integer \<open>length\<close>,
  \<^verbatim>\<open>fallingFactorial(n, length)\<close> is the product \<open>(n-1)(n-2)\<dots>(n-length)\<close>; for length 0
  it is 1, whatever \<open>n\<close> is; and \<^verbatim>\<open>fallingFactorial(5, 3)\<close> is 24.
\<close>

theorem fallingFactorial_product:
  "fallingFactorial (Num x) len = Num (\<Prod>j = 1..len. x - real j)
   \<and> fallingFactorial n 0 = Num 1
   \<and> fallingFactorial (Num 5) 3 = Num 24"
proof -
  have "fallingFactorial (Num 5) 3 = Num 24"
    by (simp add: fallingFactorial_def fallingFactorial_loop.simps)
  then show ?thesis
    by (simp add: fallingFactorial_Num fallingFactorial_0)
qed

text \<open>
  Claim C10, as stated: whenever all terms are numbers, every stored coefficient is a
  number, never \<open>NaN\<close>. In binary64 arithmetic the terms \<open>2^1023\<close>, \<open>-2^1023\<close>, \<open>2^1023\<close>, 0
  give the table \<open>2^1023\<close>, \<open>-Infinity\<close>, \<open>NaN\<close>: the difference \<open>t[1] - c[0]\<close> overflows,
  and the sum of the two infinities in the next construction step is \<open>NaN\<close>, which is the
  retained value since that step is not the last of its loop.
\<close>

theorem stored_coefficient_NaN:
  "coefficients (Sequence_new64 [Num (2 ^ 1023), Num (- (2 ^ 1023)), Num (2 ^ 1023), Num 0])
     = [Num (2 ^ 1023), NInf, NaN, Undef]"
  by (simp add: Sequence_new64_def eval64 Let_def)

text \<open>
  Claim C10, amended. Let the terms be \<open>m \<ge> 2\<close> finite numbers and \<open>1 \<le> i < m\<close>, in
  exact arithmetic (no rounding, no overflow). The table on which iteration \<open>i\<close> of the
  constructor runs is the one the constructor builds from the first \<open>i\<close> terms; its slot
  \<open>i - 1\<close> is still unassigned. The loop of \<^verbatim>\<open>_computeCoefficient\<close> ends with the running
  value \<open>NaN\<close> (its last iteration reads that slot) and with the retained coefficient,
  which is the stored \<open>c[i-1]\<close> and is a number.
\<close>

theorem transient_NaN_discarded:
  assumes "1 \<le> i" "i < length rs"
  shows "coefficients (Sequence_new (map Num rs)) =
           constructor_loop (map Num rs) i
             (constructor_loop (take i (map Num rs)) 1 (replicate (length rs) Undef))
     \<and> js_index (constructor_loop (take i (map Num rs)) 1 (replicate (length rs) Undef)) (i - 1)
           = Undef
     \<and> computeCoefficient_loop
           (constructor_loop (take i (map Num rs)) 1 (replicate (length rs) Undef))
           (take (i + 1) (map Num rs)) (Num (real (i + 1))) 1
           (js_index (take (i + 1) (map Num rs)) 0) (js_index (take (i + 1) (map Num rs)) 0)
         = (NaN, coefficients (Sequence_new (map Num rs)) ! (i - 1))
     \<and> (\<exists>r. coefficients (Sequence_new (map Num rs)) ! (i - 1) = Num r)"
proof -
  let ?ts = "map Num rs"
  let ?m = "length rs"
  let ?cs = "coeffs_upto rs ?m (i - 1)"
  let ?n = "Num (real (Suc i))"
  from assms obtain p where p: "i = Suc p" by (cases i) auto
  have il: "i \<le> ?m" "i - 1 < ?m - 1" "i < length ?ts" using assms by simp_all
  have cs: "constructor_loop (take i ?ts) (Suc 0) (replicate ?m Undef) = ?cs"
    by (rule constructor_loop_prefix_numeric[OF il(1)])
  have "constructor_loop ?ts (Suc (i - 1)) ?cs = coeffs_upto rs ?m (length ?ts - 1)"
    using il by (intro constructor_loop_numeric) simp_all
  then have a: "coefficients (Sequence_new ?ts) = constructor_loop ?ts i ?cs"
    using p by (simp add: coefficients_numeric)
  have b: "js_index ?cs (i - 1) = Undef"
    by (rule coeffs_upto_ge) simp
  have stored: "coefficients (Sequence_new ?ts) ! (i - 1) = Num (newton_poly rs (i - 1) (real (Suc i)))"
    using coefficients_numeric_nth[OF il(2)] p by simp
  have t: "\<forall>j<i. js_index ?ts j = Num (rs ! j)"
    using assms by (simp add: js_index_def)
  have c: "\<forall>j<i - 1. js_index ?cs j = Num (newton_poly rs j (real (j + 2)))"
    by (simp add: coeffs_upto_lt)
  have R: "foldl (newton_step ?cs ?ts ?n) (js_index ?ts 0) [Suc 0..<i]
             = Num (newton_poly rs (i - 1) (real (Suc i)))"
    by (rule foldl_newton_poly[OF assms(1) il(1) t c])
  have z: "js_index (take (Suc i) ?ts) 0 = js_index ?ts 0"
    by (simp add: js_index_take)
  have "computeCoefficient_loop ?cs (take (Suc i) ?ts) ?n (Suc 0)
          (js_index (take (Suc i) ?ts) 0) (js_index (take (Suc i) ?ts) 0)
        = (NaN, Num (newton_poly rs (i - 1) (real (Suc i))))"
    by (simp only: z computeCoefficient_loop_prefix[OF assms(1) il(3)] R newton_step_Undef[OF b])
  then have c': "computeCoefficient_loop ?cs (take (Suc i) ?ts) ?n (Suc 0)
          (js_index (take (Suc i) ?ts) 0) (js_index (take (Suc i) ?ts) 0)
        = (NaN, coefficients (Sequence_new ?ts) ! (i - 1))"
    by (simp only: stored)
  have d: "\<exists>r. coefficients (Sequence_new ?ts) ! (i - 1) = Num r"
    using stored by blast
  let ?tbl = "constructor_loop (take i ?ts) 1 (replicate ?m Undef)"
  have cs0: "?tbl = ?cs"
    using cs by simp
  have i1: "i + 1 = Suc i"
    by simp
  have a0: "coefficients (Sequence_new ?ts) = constructor_loop ?ts i ?tbl"
    by (simp only: cs0 a[symmetric])
  have b0: "js_index ?tbl (i - 1) = Undef"
    by (simp only: cs0 b)
  have c0: "computeCoefficient_loop ?tbl (take (i + 1) ?ts) (Num (real (i + 1))) 1
          (js_index (take (i + 1) ?ts) 0) (js_index (take (i + 1) ?ts) 0)
        = (NaN, coefficients (Sequence_new ?ts) ! (i - 1))"
    using c' cs0 by simp
  from a0 b0 c0 d show ?thesis
    by (intro conjI)
qed

theorem transient_NaN_discarded_witness:
  "computeCoefficient_loop
     (constructor_loop (take 2 (map Num [10, 100, 1000])) 1 (replicate (length [10, 100, 1000 :: real]) Undef))
     (take (2 + 1) (map Num [10, 100, 1000])) (Num (real (2 + 1))) 1
     (js_index (take (2 + 1) (map Num [10, 100, 1000])) 0) (js_index (take (2 + 1) (map Num [10, 100, 1000])) 0)
   = (NaN, coefficients (Sequence_new (map Num [10, 100, 1000])) ! (2 - 1))
   \<and> (\<exists>r. coefficients (Sequence_new (map Num [10, 100, 1000])) ! (2 - 1) = Num r)"
proof -
  have h: "(1::nat) \<le> 2" "2 < length [10, 100, 1000 :: real]" by simp_all
  from transient_NaN_discarded[OF h] show ?thesis by blast
qed

end
